theory Spec2Isabelle
  imports Complex_Main "HOL-Library.Word" "HOL-Library.Multiset"
begin

chapter \<open>The pixel transforms of the screen repository\<close>

text \<open>
  The development embeds the raster passes of \<^verbatim>\<open>src/utils/glitchAlgorithms.ts\<close>
  (threshold, channel shift, block shift, scanlines, row pixel sort, the glitch
  pipeline and the blend stage) and of \<^verbatim>\<open>src/utils/chromaKeyAlgorithms.ts\<close>
  (hex colour parsing and chroma key) and settles the claims C1 to C10 on them.

  A \<^verbatim>\<open>Uint8ClampedArray\<close> is a list of bytes. A read outside the array yields
  \<^verbatim>\<open>undefined\<close> (\<open>None\<close>), an indexed write outside the array is dropped, and
  \<^verbatim>\<open>TypedArray.prototype.set\<close> raises \<^verbatim>\<open>RangeError\<close> when the source does not
  fit. Every call of \<^verbatim>\<open>Math.random()\<close> is an explicit input: \<open>rnd k\<close> is the value
  returned by call number \<open>k\<close>, and the passes thread the number of calls made.
\<close>

section \<open>Numbers\<close>

text \<open>
  A JavaScript number is an IEEE 754 binary64 value. Finite values are modelled by
  the real they denote. Integer-valued quantities (indices, channel sums, widths)
  stay below \<open>2^53\<close>, where sums, differences and products are exact, and are
  modelled by \<open>int\<close> and \<open>nat\<close>. Every other sum, difference, product, quotient and
  square root is rounded to the nearest binary64 value, ties to even:
  \<open>binary64\<close> below, with gradual underflow. Overflow to infinity and NaN
  parameters are not represented.
\<close>

definition round_even :: "real \<Rightarrow> int" where
  "round_even x =
     (let f = \<lfloor>x\<rfloor>; r = x - of_int f
      in if r < 1 / 2 then f else if 1 / 2 < r then f + 1 else if even f then f else f + 1)"

function expo_hi :: "real \<Rightarrow> nat" where
  "expo_hi x = (if 2 \<le> x then Suc (expo_hi (x / 2)) else 0)"
  by pat_completeness auto
termination
proof (relation "measure (\<lambda>x. nat \<lfloor>x\<rfloor>)")
  show "wf (measure (\<lambda>x::real. nat \<lfloor>x\<rfloor>))" by simp
next
  fix x :: real
  assume "2 \<le> x"
  then have "\<lfloor>x / 2\<rfloor> < \<lfloor>x\<rfloor>" by linarith
  moreover from \<open>2 \<le> x\<close> have "0 < \<lfloor>x\<rfloor>" by linarith
  ultimately show "(x / 2, x) \<in> measure (\<lambda>x. nat \<lfloor>x\<rfloor>)" by simp
qed

function expo_lo :: "real \<Rightarrow> nat" where
  "expo_lo x = (if 0 < x \<and> x < 1 then Suc (expo_lo (x * 2)) else 0)"
  by pat_completeness auto
termination
proof (relation "measure (\<lambda>x. nat \<lfloor>1 / x\<rfloor>)")
  show "wf (measure (\<lambda>x::real. nat \<lfloor>1 / x\<rfloor>))" by simp
next
  fix x :: real
  assume a: "0 < x \<and> x < 1"
  define y where "y = 1 / x"
  from a have "1 < y" by (simp add: y_def)
  have "\<lfloor>y / 2\<rfloor> < \<lfloor>y\<rfloor>"
  proof (cases "2 \<le> y")
    case True
    then show ?thesis by linarith
  next
    case False
    with \<open>1 < y\<close> have "\<lfloor>y / 2\<rfloor> = 0" and "\<lfloor>y\<rfloor> = 1"
      by (simp_all add: floor_eq_iff)
    then show ?thesis by simp
  qed
  moreover from \<open>1 < y\<close> have "0 < \<lfloor>y\<rfloor>" by linarith
  ultimately show "(x * 2, x) \<in> measure (\<lambda>x. nat \<lfloor>1 / x\<rfloor>)"
    by (simp add: y_def field_simps)
qed

declare expo_hi.simps [simp del] expo_lo.simps [simp del]

text \<open>The binary exponent of a positive real: \<open>2 powi expo x \<le> x < 2 powi (expo x + 1)\<close>.\<close>

definition expo :: "real \<Rightarrow> int" where
  "expo x = (if 1 \<le> x then int (expo_hi x) else - int (expo_lo x))"

text \<open>
  Rounding to binary64: 53 significant bits, so the spacing at \<open>x\<close> is
  \<open>2 powi (expo \<bar>x\<bar> - 52)\<close>, and never finer than \<open>2 powi (- 1074)\<close>.
\<close>

definition binary64 :: "real \<Rightarrow> real" where
  "binary64 x =
     (let u = 2 powi (max (expo \<bar>x\<bar>) (- 1022) - 52)
      in of_int (round_even (x / u)) * u)"

definition fadd :: "real \<Rightarrow> real \<Rightarrow> real" where "fadd a b = binary64 (a + b)"
definition fsub :: "real \<Rightarrow> real \<Rightarrow> real" where "fsub a b = binary64 (a - b)"
definition fmul :: "real \<Rightarrow> real \<Rightarrow> real" where "fmul a b = binary64 (a * b)"
definition fdiv :: "real \<Rightarrow> real \<Rightarrow> real" where "fdiv a b = binary64 (a / b)"
definition fsqrt :: "real \<Rightarrow> real" where "fsqrt a = binary64 (sqrt a)"

text \<open>The 32-bit conversions behind \<^verbatim>\<open>n << 2\<close> and \<^verbatim>\<open>n >>> 2\<close>.\<close>

definition toInt32 :: "int \<Rightarrow> int" where
  "toInt32 n = (n + 2 ^ 31) mod 2 ^ 32 - 2 ^ 31"

definition shl2 :: "int \<Rightarrow> int" where
  "shl2 n = toInt32 (n * 4)"

definition ushr2 :: "nat \<Rightarrow> nat" where
  "ushr2 n = (n mod 2 ^ 32) div 4"

text \<open>\<^verbatim>\<open>a % b\<close> on integers with \<open>b \<noteq> 0\<close>: the result takes the sign of \<open>a\<close>.\<close>

definition js_rem :: "int \<Rightarrow> int \<Rightarrow> int" where
  "js_rem a b = sgn a * (\<bar>a\<bar> mod \<bar>b\<bar>)"

section \<open>Typed arrays\<close>

type_synonym byte = "8 word"

datatype error = RangeError | IndexSizeError

definition num :: "byte \<Rightarrow> int" where
  "num b = uint b"

text \<open>The conversion applied when a number is stored in a \<^verbatim>\<open>Uint8ClampedArray\<close>.\<close>

definition toUint8Clamp :: "real \<Rightarrow> byte" where
  "toUint8Clamp x =
     (if x \<le> 0 then 0 else if 255 \<le> x then 255 else word_of_int (round_even x))"

definition rd :: "byte list \<Rightarrow> nat \<Rightarrow> byte option" where
  "rd a i = (if i < length a then Some (a ! i) else None)"

definition rdi :: "byte list \<Rightarrow> int \<Rightarrow> byte option" where
  "rdi a i = (if i < 0 then None else rd a (nat i))"

text \<open>Storing an element that was read: \<^verbatim>\<open>undefined\<close> is stored as 0.\<close>

definition store :: "byte option \<Rightarrow> byte" where
  "store v = (case v of None \<Rightarrow> 0 | Some b \<Rightarrow> b)"

text \<open>\<^verbatim>\<open>a.subarray(begin, end)\<close>: negative positions count from the end, both are clamped.\<close>

definition rel_index :: "nat \<Rightarrow> int \<Rightarrow> nat" where
  "rel_index n k = (if k < 0 then nat (int n + k) else min (nat k) n)"

definition subarray :: "byte list \<Rightarrow> int \<Rightarrow> int \<Rightarrow> byte list" where
  "subarray a b e =
     (let b' = rel_index (length a) b; e' = rel_index (length a) e
      in take (e' - b') (drop b' a))"

text \<open>
  \<^verbatim>\<open>a.set(src, off)\<close> copies \<open>src\<close> as it was before the call (also when it is a view
  of \<open>a\<close>) and raises \<^verbatim>\<open>RangeError\<close> when it does not fit.
\<close>

definition typed_set :: "byte list \<Rightarrow> byte list \<Rightarrow> int \<Rightarrow> error + byte list" where
  "typed_set a src off =
     (if off < 0 \<or> int (length a) < off + int (length src) then Inl RangeError
      else Inr (take (nat off) a @ src @ drop (nat off + length src) a))"

text \<open>A loop whose body may raise.\<close>

fun efold :: "('i \<Rightarrow> 's \<Rightarrow> error + 's) \<Rightarrow> 'i list \<Rightarrow> 's \<Rightarrow> error + 's" where
  "efold f [] s = Inr s"
| "efold f (x # xs) s = (case f x s of Inl e \<Rightarrow> Inl e | Inr s' \<Rightarrow> efold f xs s')"

text \<open>The values of \<open>i\<close> in \<^verbatim>\<open>for (let i = 0; i < len; i += 4)\<close>.\<close>

definition pixel_starts :: "nat \<Rightarrow> nat list" where
  "pixel_starts len = map (\<lambda>k. 4 * k) [0..<(len + 3) div 4]"

section \<open>Random integers\<close>

text \<open>\<^verbatim>\<open>randomInt(min, max)\<close> on the draw \<open>u\<close> returned by \<^verbatim>\<open>Math.random()\<close>.\<close>

definition randomInt :: "real \<Rightarrow> int \<Rightarrow> int \<Rightarrow> int" where
  "randomInt u lo hi = \<lfloor>fmul u (of_int (hi - lo + 1))\<rfloor> + lo"

section \<open>applyThreshold\<close>

definition threshold_step :: "real \<Rightarrow> nat \<Rightarrow> byte list \<Rightarrow> byte list" where
  "threshold_step threshold i data =
     (let brightness =
            (case (rd data i, rd data (i + 1), rd data (i + 2)) of
               (Some r, Some g, Some b) \<Rightarrow> Some (fdiv (of_int (num r + num g + num b)) 3)
             | _ \<Rightarrow> None);
          val = (case brightness of
                   Some br \<Rightarrow> if threshold \<le> br then 255 else 0
                 | None \<Rightarrow> 0)
      in data[i := val, i + 1 := val, i + 2 := val])"

definition applyThreshold :: "byte list \<Rightarrow> real \<Rightarrow> byte list" where
  "applyThreshold data threshold =
     (if threshold \<le> 0 then data
      else fold (threshold_step threshold) (pixel_starts (length data)) data)"

section \<open>applyRGBShift\<close>

text \<open>
  For \<open>width = 0\<close> both remainders are NaN and \<^verbatim>\<open>NaN << 2\<close> is 0. The offset is a
  whole number of pixels.
\<close>

definition rgbshift_index :: "nat \<Rightarrow> int \<Rightarrow> nat \<Rightarrow> int" where
  "rgbshift_index width offset i =
     (let pixelIndex = int (ushr2 i)
      in if width = 0 then 0
         else let x = js_rem pixelIndex (int width);
                  y = (pixelIndex - x) div int width;
                  newX = js_rem (x + offset) (int width)
              in shl2 (y * int width + newX))"

definition rgbshift_step :: "byte list \<Rightarrow> nat \<Rightarrow> int \<Rightarrow> nat \<Rightarrow> byte list \<Rightarrow> byte list" where
  "rgbshift_step buffer width offset i data =
     (let newIndex = rgbshift_index width offset i
      in if newIndex < int (length data) then data[i := store (rdi buffer newIndex)]
         else data)"

definition applyRGBShift :: "byte list \<Rightarrow> nat \<Rightarrow> nat \<Rightarrow> int \<Rightarrow> byte list" where
  "applyRGBShift data width height offset =
     (if offset = 0 then data
      else fold (rgbshift_step data width offset) (pixel_starts (length data)) data)"

section \<open>applyBlockShift\<close>

text \<open>
  One block makes six draws, in this order: width, height, source column, source
  row, horizontal shift, vertical shift. The result lists
  \<open>(blockW, blockH, srcX, srcY, destX, destY)\<close>.
\<close>

definition block_geometry ::
  "(nat \<Rightarrow> real) \<Rightarrow> nat \<Rightarrow> nat \<Rightarrow> nat \<Rightarrow> int \<times> int \<times> int \<times> int \<times> int \<times> int" where
  "block_geometry rnd width height c =
     (let maxBlockSize = int width div 4;
          blockW = randomInt (rnd c) 10 maxBlockSize;
          blockH = randomInt (rnd (c + 1)) 2 50;
          srcX = randomInt (rnd (c + 2)) 0 (int width - blockW);
          srcY = randomInt (rnd (c + 3)) 0 (int height - blockH);
          shiftX = randomInt (rnd (c + 4)) (- 50) 50;
          shiftY = randomInt (rnd (c + 5)) (- 10) 10;
          destX = min (int width - blockW) (max 0 (srcX + shiftX));
          destY = min (int height - blockH) (max 0 (srcY + shiftY))
      in (blockW, blockH, srcX, srcY, destX, destY))"

definition copy_row ::
  "nat \<Rightarrow> int \<times> int \<times> int \<times> int \<times> int \<times> int \<Rightarrow> nat \<Rightarrow> byte list \<Rightarrow> error + byte list" where
  "copy_row width geo y data =
     (case geo of (blockW, blockH, srcX, srcY, destX, destY) \<Rightarrow>
        let srcStart = ((srcY + int y) * int width + srcX) * 4;
            destStart = ((destY + int y) * int width + destX) * 4;
            len = blockW * 4
        in if srcStart + len < int (length data) \<and> destStart + len < int (length data)
              \<and> 0 \<le> srcStart \<and> 0 \<le> destStart
           then typed_set data (subarray data srcStart (srcStart + len)) destStart
           else Inr data)"

definition shift_block ::
  "(nat \<Rightarrow> real) \<Rightarrow> nat \<Rightarrow> nat \<Rightarrow> nat \<Rightarrow> byte list \<times> nat \<Rightarrow> error + byte list \<times> nat" where
  "shift_block rnd width height b st =
     (case st of (data, c) \<Rightarrow>
        let geo = block_geometry rnd width height c
        in case efold (copy_row width geo) [0..<nat (fst (snd geo))] data of
             Inl e \<Rightarrow> Inl e
           | Inr data' \<Rightarrow> Inr (data', c + 6))"

definition numBlocks :: "real \<Rightarrow> int" where
  "numBlocks intensity = \<lfloor>fmul (fdiv intensity 100) 30\<rfloor>"

definition applyBlockShift ::
  "byte list \<Rightarrow> nat \<Rightarrow> nat \<Rightarrow> real \<Rightarrow> real \<Rightarrow> (nat \<Rightarrow> real) \<Rightarrow> nat \<Rightarrow> error + byte list \<times> nat" where
  "applyBlockShift data width height intensity seed rnd c =
     (if intensity = 0 then Inr (data, c)
      else efold (shift_block rnd width height) [0..<nat (numBlocks intensity)] (data, c))"

section \<open>applyScanlines\<close>

definition lineSkip :: "real \<Rightarrow> int" where
  "lineSkip intensity = 2 + \<lfloor>fdiv (fsub 10 intensity) 2\<rfloor>"

definition scan_factor :: "real \<Rightarrow> real" where
  "scan_factor intensity = fadd (1 / 2) (fdiv (fsub 10 intensity) 20)"

definition noiseChance :: "real \<Rightarrow> real" where
  "noiseChance intensity = fmul intensity (binary64 (1 / 100))"

definition scale_channel :: "real \<Rightarrow> nat \<Rightarrow> byte list \<Rightarrow> byte list" where
  "scale_channel factor i data =
     (case rd data i of
        None \<Rightarrow> data
      | Some v \<Rightarrow> data[i := toUint8Clamp (fmul (of_int (num v)) factor)])"

definition add_noise :: "real \<Rightarrow> nat \<Rightarrow> byte list \<Rightarrow> byte list" where
  "add_noise noise i data =
     (case rd data i of
        None \<Rightarrow> data
      | Some v \<Rightarrow> data[i := toUint8Clamp (fadd (of_int (num v)) noise)])"

definition scanline_px ::
  "real \<Rightarrow> real \<Rightarrow> (nat \<Rightarrow> real) \<Rightarrow> nat \<Rightarrow> byte list \<times> nat \<Rightarrow> byte list \<times> nat" where
  "scanline_px factor chance rnd i st =
     (case st of (data, c) \<Rightarrow>
        let d = scale_channel factor (i + 2)
                  (scale_channel factor (i + 1) (scale_channel factor i data))
        in if rnd c < chance
           then let noise = fmul (fsub (rnd (c + 1)) (1 / 2)) 50
                in (add_noise noise (i + 2) (add_noise noise (i + 1) (add_noise noise i d)),
                    c + 2)
           else (d, c + 1))"

text \<open>\<^verbatim>\<open>y % lineSkip === 0\<close> is false when \<open>lineSkip = 0\<close> (the remainder is NaN).\<close>

definition scanline_row ::
  "nat \<Rightarrow> real \<Rightarrow> (nat \<Rightarrow> real) \<Rightarrow> nat \<Rightarrow> byte list \<times> nat \<Rightarrow> byte list \<times> nat" where
  "scanline_row width intensity rnd y st =
     (if lineSkip intensity \<noteq> 0 \<and> js_rem (int y) (lineSkip intensity) = 0
      then fold (scanline_px (scan_factor intensity) (noiseChance intensity) rnd)
             (map (\<lambda>k. y * width * 4 + 4 * k) [0..<width]) st
      else st)"

definition applyScanlines ::
  "byte list \<Rightarrow> nat \<Rightarrow> nat \<Rightarrow> real \<Rightarrow> (nat \<Rightarrow> real) \<Rightarrow> nat \<Rightarrow> byte list \<times> nat" where
  "applyScanlines data width height intensity rnd c =
     (if intensity = 0 then (data, c)
      else fold (scanline_row width intensity rnd) [0..<height] (data, c))"

section \<open>applyPixelSort\<close>

definition rowsToSort :: "nat \<Rightarrow> real \<Rightarrow> int" where
  "rowsToSort height threshold = \<lfloor>fmul (real height) (fdiv threshold 100)\<rfloor>"

text \<open>
  The comparator's \<^verbatim>\<open>brA\<close>. When a channel is \<^verbatim>\<open>undefined\<close> the row leaves the
  array and the final \<^verbatim>\<open>data.set\<close> raises, whatever order the sort produced; the
  NaN brightness is then modelled as 0.
\<close>

definition row_brightness :: "byte list \<Rightarrow> int \<Rightarrow> nat \<Rightarrow> int" where
  "row_brightness data rowStart a =
     (let idxA = rowStart + int a * 4
      in case (rdi data idxA, rdi data (idxA + 1), rdi data (idxA + 2)) of
           (Some r, Some g, Some b) \<Rightarrow> num r + num g + num b
         | _ \<Rightarrow> 0)"

text \<open>\<^verbatim>\<open>Array.prototype.sort\<close> is stable (ECMAScript 2019), as \<open>sort_key\<close> is.\<close>

definition sort_row ::
  "(nat \<Rightarrow> real) \<Rightarrow> nat \<Rightarrow> nat \<Rightarrow> nat \<Rightarrow> byte list \<times> nat \<Rightarrow> error + byte list \<times> nat" where
  "sort_row rnd width height r st =
     (case st of (data, c) \<Rightarrow>
        let y = randomInt (rnd c) 0 (int height - 1);
            rowStart = y * int width * 4;
            rowIndices = sort_key (row_brightness data rowStart) [0..<width];
            tempRow = concat (map (\<lambda>k. let originalIdx = rowStart + int k * 4
                                         in [store (rdi data originalIdx),
                                             store (rdi data (originalIdx + 1)),
                                             store (rdi data (originalIdx + 2)),
                                             store (rdi data (originalIdx + 3))]) rowIndices)
        in case typed_set data tempRow rowStart of
             Inl e \<Rightarrow> Inl e
           | Inr data' \<Rightarrow> Inr (data', c + 1))"

definition applyPixelSort ::
  "byte list \<Rightarrow> nat \<Rightarrow> nat \<Rightarrow> real \<Rightarrow> (nat \<Rightarrow> real) \<Rightarrow> nat \<Rightarrow> error + byte list \<times> nat" where
  "applyPixelSort data width height threshold rnd c =
     (if threshold = 0 then Inr (data, c)
      else efold (sort_row rnd width height) [0..<nat (rowsToSort height threshold)] (data, c))"

section \<open>processImage\<close>

record GlitchParams =
  amount :: real
  seed :: real
  iterations :: real
  quality :: real
  rgbShift :: int
  blockShift :: real
  scanlines :: real
  pixelSort :: real

text \<open>
  \<open>data\<close> is what \<^verbatim>\<open>ctx.getImageData(0, 0, width, height)\<close> returns, which raises
  \<^verbatim>\<open>IndexSizeError\<close> for an empty rectangle; the result is what
  \<^verbatim>\<open>ctx.putImageData\<close> writes back.
\<close>

definition processImage ::
  "byte list \<Rightarrow> nat \<Rightarrow> nat \<Rightarrow> GlitchParams \<Rightarrow> (nat \<Rightarrow> real) \<Rightarrow> nat \<Rightarrow> error + byte list \<times> nat" where
  "processImage data width height params rnd c =
     (if width = 0 \<or> height = 0 then Inl IndexSizeError
      else case applyPixelSort data width height (pixelSort params) rnd c of
             Inl e \<Rightarrow> Inl e
           | Inr (d1, c1) \<Rightarrow>
               (case applyBlockShift d1 width height (blockShift params) (seed params) rnd c1 of
                  Inl e \<Rightarrow> Inl e
                | Inr (d2, c2) \<Rightarrow>
                    Inr (applyScanlines (applyRGBShift d2 width height (rgbShift params))
                           width height (scanlines params) rnd c2)))"

section \<open>renderBlend\<close>

datatype BlendMode = Displacement | Difference | HardMix | Interlace

record BlendParams =
  mode :: BlendMode
  mix :: real
  threshold :: real
  scale :: real

text \<open>The values computed before the mode is inspected.\<close>

definition blend_mix :: "BlendParams \<Rightarrow> real" where
  "blend_mix params = fdiv (mix params) 100"

definition displacementScale :: "BlendParams \<Rightarrow> real" where
  "displacementScale params = fmul (scale params) 2"

definition mix255 :: "BlendParams \<Rightarrow> real" where
  "mix255 params = fmul (blend_mix params) 255"

definition rowHeight :: "BlendParams \<Rightarrow> int" where
  "rowHeight params = max 1 \<lfloor>fdiv (scale params) 10\<rfloor>"

text \<open>\<^verbatim>\<open>Math.floor(((v / 127.5) - 1) * displacementScale)\<close>; NaN (\<open>None\<close>) for an absent channel.\<close>

definition displacement_shift :: "real \<Rightarrow> byte option \<Rightarrow> int option" where
  "displacement_shift dscale ch =
     (case ch of
        None \<Rightarrow> None
      | Some v \<Rightarrow> Some \<lfloor>fmul (fsub (fdiv (of_int (num v)) (255 / 2)) 1) dscale\<rfloor>)"

definition clamp_coord :: "int \<Rightarrow> int \<Rightarrow> int" where
  "clamp_coord v bound = (if v < 0 then 0 else if bound \<le> v then bound - 1 else v)"

text \<open>\<^verbatim>\<open>srcIdx\<close>; a NaN coordinate passes both clamps and \<^verbatim>\<open>NaN << 2\<close> is 0.\<close>

definition displacement_src :: "byte list \<Rightarrow> nat \<Rightarrow> nat \<Rightarrow> real \<Rightarrow> nat \<Rightarrow> int" where
  "displacement_src blendData width height dscale i =
     (case (displacement_shift dscale (rd blendData i),
            displacement_shift dscale (rd blendData (i + 1))) of
        (Some shiftX, Some shiftY) \<Rightarrow>
          if width = 0 then 0
          else let pixelIndex = int (ushr2 i);
                   x = js_rem pixelIndex (int width);
                   y = (pixelIndex - x) div int width;
                   srcX = clamp_coord (x + shiftX) (int width);
                   srcY = clamp_coord (y + shiftY) (int height)
               in shl2 (srcY * int width + srcX)
      | _ \<Rightarrow> 0)"

text \<open>Iteration \<open>i / 4\<close> of the displacement loop makes call \<open>c + i / 4\<close> of the generator.\<close>

definition displacement_step ::
  "byte list \<Rightarrow> byte list \<Rightarrow> nat \<Rightarrow> nat \<Rightarrow> BlendParams \<Rightarrow> (nat \<Rightarrow> real) \<Rightarrow> nat \<Rightarrow> nat
     \<Rightarrow> byte list \<Rightarrow> byte list" where
  "displacement_step buffer blendData width height params rnd c i data =
     (let srcIdx = displacement_src blendData width height (displacementScale params) i
      in if fsub 1 (blend_mix params) < rnd (c + i div 4)
         then data[i := store (rdi buffer srcIdx),
                   i + 1 := store (rdi buffer (srcIdx + 1)),
                   i + 2 := store (rdi buffer (srcIdx + 2))]
         else data)"

definition abs_diff :: "byte option \<Rightarrow> byte option \<Rightarrow> byte" where
  "abs_diff a b =
     (case (a, b) of
        (Some x, Some y) \<Rightarrow> word_of_int \<bar>num x - num y\<bar>
      | _ \<Rightarrow> 0)"

definition difference_step ::
  "byte list \<Rightarrow> BlendParams \<Rightarrow> (nat \<Rightarrow> real) \<Rightarrow> nat \<Rightarrow> nat \<Rightarrow> byte list \<Rightarrow> byte list" where
  "difference_step blendData params rnd c i data =
     (if rnd (c + i div 4) < blend_mix params
      then data[i := abs_diff (rd data i) (rd blendData i),
                i + 1 := abs_diff (rd data (i + 1)) (rd blendData (i + 1)),
                i + 2 := abs_diff (rd data (i + 2)) (rd blendData (i + 2))]
      else data)"

text \<open>\<^verbatim>\<open>(a + b) >> 1\<close>; \<^verbatim>\<open>NaN >> 1\<close> is 0.\<close>

definition half_sum :: "byte option \<Rightarrow> byte option \<Rightarrow> int" where
  "half_sum a b =
     (case (a, b) of
        (Some x, Some y) \<Rightarrow> (num x + num y) div 2
      | _ \<Rightarrow> 0)"

definition push :: "real \<Rightarrow> real \<Rightarrow> int \<Rightarrow> byte" where
  "push thresh m255 v =
     toUint8Clamp (if thresh < of_int v then min 255 (fadd (of_int v) m255)
                   else max 0 (fsub (of_int v) m255))"

definition hardmix_step :: "byte list \<Rightarrow> BlendParams \<Rightarrow> nat \<Rightarrow> byte list \<Rightarrow> byte list" where
  "hardmix_step blendData params i data =
     (let r = half_sum (rd data i) (rd blendData i);
          g = half_sum (rd data (i + 1)) (rd blendData (i + 1));
          b = half_sum (rd data (i + 2)) (rd blendData (i + 2))
      in data[i := push (threshold params) (mix255 params) r,
              i + 1 := push (threshold params) (mix255 params) g,
              i + 2 := push (threshold params) (mix255 params) b])"

definition interlace_row :: "byte list \<Rightarrow> nat \<Rightarrow> BlendParams \<Rightarrow> nat \<Rightarrow> byte list \<Rightarrow> byte list" where
  "interlace_row blendData width params y data =
     (if (int y div rowHeight params) mod 2 = 0 \<and> binary64 (1 / 10) < blend_mix params
      then fold (\<lambda>j d. d[j := store (rd blendData j)])
             [y * width * 4..<y * width * 4 + width * 4] data
      else data)"

text \<open>
  \<open>targetData\<close> is the canvas content read by \<^verbatim>\<open>ctx.getImageData\<close>; \<open>img2\<close> is the
  second source after it was drawn at \<open>width \<times> height\<close> and read back
  (\<open>blendData\<close>), \<open>None\<close> when there is no second source.
\<close>

definition renderBlend ::
  "byte list \<Rightarrow> byte list option \<Rightarrow> nat \<Rightarrow> nat \<Rightarrow> BlendParams \<Rightarrow> (nat \<Rightarrow> real) \<Rightarrow> nat
     \<Rightarrow> error + byte list \<times> nat" where
  "renderBlend targetData img2 width height params rnd c =
     (if width = 0 \<or> height = 0 then Inl IndexSizeError
      else case img2 of
             None \<Rightarrow> Inr (targetData, c)
           | Some blendData \<Rightarrow>
               let starts = pixel_starts (length targetData)
               in case mode params of
                    Displacement \<Rightarrow>
                      Inr (fold (displacement_step targetData blendData width height params rnd c)
                             starts targetData, c + length starts)
                  | Difference \<Rightarrow>
                      if 0 < blend_mix params
                      then Inr (fold (difference_step blendData params rnd c) starts targetData,
                                c + length starts)
                      else Inr (targetData, c)
                  | HardMix \<Rightarrow> Inr (fold (hardmix_step blendData params) starts targetData, c)
                  | Interlace \<Rightarrow>
                      Inr (fold (interlace_row blendData width params) [0..<height] targetData, c))"

section \<open>hexToRgb and applyChromaKey\<close>

text \<open>
  The pattern \<^verbatim>\<open>/^#?([a-f\d]{2})([a-f\d]{2})([a-f\d]{2})$/i\<close>: an optional \<^verbatim>\<open>#\<close>, then
  exactly six characters of \<^verbatim>\<open>0-9a-fA-F\<close>; the result holds the three groups.
\<close>

definition is_hex_char :: "char \<Rightarrow> bool" where
  "is_hex_char ch = (ch \<in> set ''0123456789abcdefABCDEF'')"

definition hex_exec :: "string \<Rightarrow> (string \<times> string \<times> string) option" where
  "hex_exec hex =
     (let body = (case hex of [] \<Rightarrow> hex | ch # rest \<Rightarrow> if ch = CHR ''#'' then rest else hex)
      in if length body = 6 \<and> list_all is_hex_char body
         then Some (take 2 body, take 2 (drop 2 body), drop 4 body)
         else None)"

text \<open>
  \<^verbatim>\<open>parseInt(s, 16)\<close> on a captured group, which holds hexadecimal digits only: the
  digits are accumulated from the left up to the first character that is not one.
\<close>

definition hex_digit :: "char \<Rightarrow> nat option" where
  "hex_digit ch =
     (let k = (of_char ch :: nat)
      in if 48 \<le> k \<and> k \<le> 57 then Some (k - 48)
         else if 97 \<le> k \<and> k \<le> 102 then Some (k - 87)
         else if 65 \<le> k \<and> k \<le> 70 then Some (k - 55)
         else None)"

fun parse_hex :: "nat \<Rightarrow> string \<Rightarrow> nat" where
  "parse_hex acc [] = acc"
| "parse_hex acc (ch # rest) =
     (case hex_digit ch of None \<Rightarrow> acc | Some d \<Rightarrow> parse_hex (16 * acc + d) rest)"

definition parseInt16 :: "string \<Rightarrow> int" where
  "parseInt16 s = int (parse_hex 0 s)"

definition hexToRgb :: "string \<Rightarrow> int \<times> int \<times> int" where
  "hexToRgb hex =
     (case hex_exec hex of
        Some (g1, g2, g3) \<Rightarrow> (parseInt16 g1, parseInt16 g2, parseInt16 g3)
      | None \<Rightarrow> (0, 255, 0))"

record ChromaParams =
  enabled :: bool
  keyColor :: string
  similarity :: real
  smoothness :: real
  spill :: real

definition distThresholdSq :: "ChromaParams \<Rightarrow> real" where
  "distThresholdSq params =
     (let distThreshold = fmul (similarity params) 442 in fmul distThreshold distThreshold)"

definition smoothRange :: "ChromaParams \<Rightarrow> real" where
  "smoothRange params = fmul (smoothness params) 100"

definition desaturate :: "real \<Rightarrow> real \<Rightarrow> int \<Rightarrow> byte" where
  "desaturate sp gray v = toUint8Clamp (fadd (fmul (of_int v) (fsub 1 sp)) (fmul gray sp))"

text \<open>
  One iteration of the pixel loop. With an absent channel the distance is NaN and
  both comparisons fail.
\<close>

definition chroma_px :: "ChromaParams \<Rightarrow> nat \<Rightarrow> byte list \<Rightarrow> byte list" where
  "chroma_px params i data =
     (case (rd data (i * 4), rd data (i * 4 + 1), rd data (i * 4 + 2)) of
        (Some cr, Some cg, Some cb) \<Rightarrow>
          (case hexToRgb (keyColor params) of (tr, tg, tb) \<Rightarrow>
             let r = num cr; g = num cg; b = num cb;
                 dr = r - tr; dg = g - tg; db = b - tb;
                 distSq = dr * dr + dg * dg + db * db
             in if of_int distSq < distThresholdSq params then data[i * 4 + 3 := 0]
                else if 0 < smoothRange params
                        \<and> of_int distSq
                            < fadd (distThresholdSq params)
                                (fmul (smoothRange params) (smoothRange params))
                then let dist = fsqrt (of_int distSq);
                         base = fsqrt (distThresholdSq params);
                         alpha = fdiv (fsub dist base) (smoothRange params);
                         d = (if 0 < spill params
                              then let gray = fadd (fadd (fmul (of_int r) (binary64 (299 / 1000)))
                                                      (fmul (of_int g) (binary64 (587 / 1000))))
                                                (fmul (of_int b) (binary64 (114 / 1000)))
                                   in data[i * 4 := desaturate (spill params) gray r,
                                           i * 4 + 1 := desaturate (spill params) gray g,
                                           i * 4 + 2 := desaturate (spill params) gray b]
                              else data)
                     in d[i * 4 + 3 := toUint8Clamp (fmul alpha 255)]
                else data)
      | _ \<Rightarrow> data)"

text \<open>
  \<open>data\<close> is \<^verbatim>\<open>frame.data\<close>; the loop runs while \<^verbatim>\<open>i < frame.data.length / 4\<close>.
\<close>

definition applyChromaKey ::
  "byte list \<Rightarrow> nat \<Rightarrow> nat \<Rightarrow> ChromaParams \<Rightarrow> error + byte list" where
  "applyChromaKey data width height params =
     (if \<not> enabled params then Inr data
      else if width = 0 \<or> height = 0 then Inl IndexSizeError
      else Inr (fold (chroma_px params) [0..<(length data + 3) div 4] data))"

section \<open>Notions used in the statements and proofs\<close>

text \<open>The value written by one iteration of the threshold loop.\<close>

definition thr_val :: "real \<Rightarrow> byte list \<Rightarrow> nat \<Rightarrow> byte" where
  "thr_val t d i =
     (if i + 2 < length d
      then (if t \<le> fdiv (of_int (num (d ! i) + num (d ! (i + 1)) + num (d ! (i + 2)))) 3 then 255 else 0)
      else 0)"

text \<open>
  The spec's reading of a colour string: six hexadecimal digits, with or without a
  leading \<^verbatim>\<open>#\<close>, each pair of digits one channel.
\<close>

definition hex_value :: "char \<Rightarrow> nat option" where
  "hex_value = map_of
     [(CHR ''0'', 0), (CHR ''1'', 1), (CHR ''2'', 2), (CHR ''3'', 3), (CHR ''4'', 4),
      (CHR ''5'', 5), (CHR ''6'', 6), (CHR ''7'', 7), (CHR ''8'', 8), (CHR ''9'', 9),
      (CHR ''a'', 10), (CHR ''b'', 11), (CHR ''c'', 12), (CHR ''d'', 13), (CHR ''e'', 14),
      (CHR ''f'', 15), (CHR ''A'', 10), (CHR ''B'', 11), (CHR ''C'', 12), (CHR ''D'', 13),
      (CHR ''E'', 14), (CHR ''F'', 15)]"

definition is_hex_color :: "string \<Rightarrow> bool" where
  "is_hex_color s =
     ((length s = 6 \<and> list_all (\<lambda>ch. hex_value ch \<noteq> None) s)
      \<or> (length s = 7 \<and> hd s = CHR ''#'' \<and> list_all (\<lambda>ch. hex_value ch \<noteq> None) (tl s)))"

definition channel_value :: "char \<Rightarrow> char \<Rightarrow> int" where
  "channel_value hi lo = int (16 * the (hex_value hi) + the (hex_value lo))"

definition rgb_value :: "string \<Rightarrow> int \<times> int \<times> int" where
  "rgb_value s =
     (let body = (if length s = 7 then tl s else s)
      in (channel_value (body ! 0) (body ! 1), channel_value (body ! 2) (body ! 3),
          channel_value (body ! 4) (body ! 5)))"

text \<open>
  What one iteration of the chroma-key loop writes to a pixel with channels
  \<open>cr\<close>, \<open>cg\<close>, \<open>cb\<close>: \<open>None\<close> when it writes nothing.
\<close>

definition chroma_out :: "ChromaParams \<Rightarrow> byte \<Rightarrow> byte \<Rightarrow> byte \<Rightarrow> (byte \<times> byte \<times> byte \<times> byte) option" where
  "chroma_out params cr cg cb =
     (case hexToRgb (keyColor params) of (tr, tg, tb) \<Rightarrow>
        let r = num cr; g = num cg; b = num cb;
            dr = r - tr; dg = g - tg; db = b - tb;
            distSq = dr * dr + dg * dg + db * db
        in if of_int distSq < distThresholdSq params then Some (cr, cg, cb, 0)
           else if 0 < smoothRange params
                   \<and> of_int distSq
                       < fadd (distThresholdSq params)
                           (fmul (smoothRange params) (smoothRange params))
           then let alpha = fdiv (fsub (fsqrt (of_int distSq)) (fsqrt (distThresholdSq params)))
                              (smoothRange params);
                    gray = fadd (fadd (fmul (of_int r) (binary64 (299 / 1000)))
                                   (fmul (of_int g) (binary64 (587 / 1000))))
                             (fmul (of_int b) (binary64 (114 / 1000)))
                in if 0 < spill params
                   then Some (desaturate (spill params) gray r, desaturate (spill params) gray g,
                              desaturate (spill params) gray b, toUint8Clamp (fmul alpha 255))
                   else Some (cr, cg, cb, toUint8Clamp (fmul alpha 255))
           else None)"

text \<open>
  The pixel number of the snapshot that the displacement loop reads for pixel \<open>n\<close>
  of a \<open>width \<times> height\<close> buffer.
\<close>

definition src_pixel :: "byte list \<Rightarrow> nat \<Rightarrow> nat \<Rightarrow> real \<Rightarrow> nat \<Rightarrow> nat" where
  "src_pixel blendData width height dscale n =
     (let shiftX = \<lfloor>fmul (fsub (fdiv (of_int (num (blendData ! (4 * n)))) (255 / 2)) 1) dscale\<rfloor>;
          shiftY = \<lfloor>fmul (fsub (fdiv (of_int (num (blendData ! (4 * n + 1)))) (255 / 2)) 1) dscale\<rfloor>
      in nat (clamp_coord (int (n div width) + shiftY) (int height)) * width
         + nat (clamp_coord (int (n mod width) + shiftX) (int width)))"

text \<open>
  A value \<^verbatim>\<open>Math.random()\<close> can return: a binary64 number in \<open>[0, 1)\<close>, so at
  most \<open>1 - 2^-53\<close>.
\<close>

definition is_draw :: "real \<Rightarrow> bool" where
  "is_draw u = (0 \<le> u \<and> u \<le> 1 - 1 / 2 ^ 53)"

text \<open>
  The buffer seen as rows of pixels: pixel \<open>n\<close> is the four bytes from \<open>4 * n\<close>,
  and row \<open>y\<close> of a \<open>width \<times> height\<close> buffer lists the pixels
  \<open>y * width, \<dots>, y * width + width - 1\<close>.
\<close>

definition pixel_at :: "byte list \<Rightarrow> nat \<Rightarrow> byte list" where
  "pixel_at d n = [d ! (4 * n), d ! (4 * n + 1), d ! (4 * n + 2), d ! (4 * n + 3)]"

definition rows_of :: "nat \<Rightarrow> nat \<Rightarrow> byte list \<Rightarrow> byte list list list" where
  "rows_of width height d =
     map (\<lambda>y. map (\<lambda>k. pixel_at d (y * width + k)) [0..<width]) [0..<height]"

text \<open>The brightness \<open>R + G + B\<close> of a pixel.\<close>

definition pixel_brightness :: "byte list \<Rightarrow> int" where
  "pixel_brightness px = num (px ! 0) + num (px ! 1) + num (px ! 2)"

text \<open>
  The rows that \<^verbatim>\<open>applyPixelSort\<close> draws when it makes \<open>n\<close> draws from
  draw \<open>c\<close> on: \<^verbatim>\<open>randomInt(0, height - 1)\<close> at each.
\<close>

definition chosen_rows :: "(nat \<Rightarrow> real) \<Rightarrow> nat \<Rightarrow> nat \<Rightarrow> nat \<Rightarrow> nat list" where
  "chosen_rows rnd c height n =
     map (\<lambda>r. nat (randomInt (rnd (c + r)) 0 (int height - 1))) [0..<n]"

text \<open>
  The row pixel sort as the specification words it, on rows of pixels: each
  selected row in turn is replaced by its stable sort by ascending brightness.
\<close>

definition spec_pixel_sort :: "nat list \<Rightarrow> byte list list list \<Rightarrow> byte list list list" where
  "spec_pixel_sort ys rows = fold (\<lambda>y rs. rs[y := sort_key pixel_brightness (rs ! y)]) ys rows"
chapter \<open>Properties\<close>

section \<open>Rounding\<close>

lemma round_even_upper: "real_of_int (round_even m) \<le> m + 1 / 2"
  unfolding round_even_def Let_def by (auto; linarith)

lemma round_even_lower: "m - 1 / 2 \<le> real_of_int (round_even m)"
  unfolding round_even_def Let_def by (auto; linarith)

lemma round_even_nonneg: "0 \<le> m \<Longrightarrow> 0 \<le> round_even m"
  unfolding round_even_def Let_def by (auto; linarith)

lemma round_even_minus: "round_even (- m) = - round_even m"
proof (cases "m = of_int \<lfloor>m\<rfloor>")
  case True
  then obtain k :: int where "m = of_int k" ..
  then show ?thesis by (simp add: round_even_def Let_def flip: of_int_minus)
next
  case False
  then have fl: "\<lfloor>- m\<rfloor> = - \<lfloor>m\<rfloor> - 1"
    by (smt (verit) ceiling_altdef ceiling_def minus_minus)
  show ?thesis
    unfolding round_even_def Let_def fl using False
    by (auto; linarith?)
qed

lemma expo_hi_bounds: "1 \<le> x \<Longrightarrow> 2 ^ expo_hi x \<le> x \<and> x < 2 ^ Suc (expo_hi x)"
proof (induction x rule: expo_hi.induct)
  case (1 x)
  show ?case
  proof (cases "2 \<le> x")
    case True
    with 1 have "2 ^ expo_hi (x / 2) \<le> x / 2 \<and> x / 2 < 2 ^ Suc (expo_hi (x / 2))" by simp
    with True show ?thesis by (subst (1 2) expo_hi.simps) simp
  next
    case False
    with 1 show ?thesis by (subst (1 2) expo_hi.simps) simp
  qed
qed

lemma expo_lo_bounds:
  "0 < x \<Longrightarrow> x < 1 \<Longrightarrow> 1 \<le> x * 2 ^ expo_lo x \<and> x * 2 ^ expo_lo x < 2"
proof (induction x rule: expo_lo.induct)
  case (1 x)
  show ?case
  proof (cases "x * 2 < 1")
    case True
    with 1 have "1 \<le> x * 2 * 2 ^ expo_lo (x * 2) \<and> x * 2 * 2 ^ expo_lo (x * 2) < 2" by simp
    with 1 show ?thesis by (subst (1 2) expo_lo.simps) (simp add: mult_ac)
  next
    case False
    then have "expo_lo (x * 2) = 0" by (subst expo_lo.simps) simp
    with 1 False show ?thesis by (subst (1 2) expo_lo.simps) simp
  qed
qed

lemma expo_lower:
  assumes "0 < x"
  shows "2 powi (expo x) \<le> x"
proof (cases "1 \<le> x")
  case True
  then show ?thesis using expo_hi_bounds [of x] by (simp add: expo_def)
next
  case False
  with assms have "1 \<le> x * 2 ^ expo_lo x" using expo_lo_bounds [of x] by simp
  then show ?thesis using False by (simp add: expo_def power_int_minus field_simps)
qed

lemma expo_upper:
  assumes "0 < x"
  shows "x < 2 powi (expo x + 1)"
proof (cases "1 \<le> x")
  case True
  then show ?thesis using expo_hi_bounds [of x] by (simp add: expo_def power_int_add)
next
  case False
  with assms have "x * 2 ^ expo_lo x < 2" using expo_lo_bounds [of x] by simp
  then have "x < 2 / 2 ^ expo_lo x" by (simp add: pos_less_divide_eq)
  moreover have "(2::real) powi (1 - int (expo_lo x)) = 2 / 2 ^ expo_lo x"
    by (simp add: power_int_diff)
  ultimately show ?thesis using False by (simp add: expo_def)
qed

lemma binary64_minus: "binary64 (- x) = - binary64 x"
  by (simp add: binary64_def Let_def round_even_minus)

lemma binary64_nonneg: "0 \<le> x \<Longrightarrow> 0 \<le> binary64 x"
  by (simp add: binary64_def Let_def round_even_nonneg)

text \<open>
  A draw is a binary64 value in \<open>[0, 1)\<close>, hence at most \<open>1 - 2^-53\<close>; its rounded
  product with \<open>n \<ge> 1\<close> stays below \<open>n\<close>.
\<close>

lemma binary64_below:
  assumes u: "0 \<le> u" "u \<le> 1 - 1 / 2 ^ 53" and n: "1 \<le> n"
  shows "binary64 (u * n) < n"
proof (cases "u * n = 0")
  case True
  then show ?thesis using n by (simp add: binary64_def Let_def round_even_def)
next
  case False
  define x where "x = u * n"
  with False u n have x: "0 < x" by (simp add: x_def less_le)
  have xn: "x \<le> n * (1 - 1 / 2 ^ 53)"
    unfolding x_def using u n by (simp add: mult.commute mult_left_mono)
  define E where "E = max (expo x) (- 1022)"
  define ulp :: real where "ulp = 2 powi (E - 52)"
  have ulp: "0 < ulp" by (simp add: ulp_def)
  have "binary64 x = of_int (round_even (x / ulp)) * ulp"
    using x by (simp add: binary64_def Let_def E_def ulp_def)
  also have "\<dots> \<le> (x / ulp + 1 / 2) * ulp"
    using round_even_upper [of "x / ulp"] ulp by (simp add: mult_right_mono)
  also have "\<dots> = x + ulp / 2" using ulp by (simp add: field_simps)
  finally have b: "binary64 x \<le> x + ulp / 2" .
  have "x + ulp / 2 < n"
  proof (cases "expo x \<le> - 1022")
    case True
    then have "ulp = 2 powi (- 1074)" by (simp add: ulp_def E_def)
    moreover have "x < 2 powi (- 1021)"
    proof -
      have "x < 2 powi (expo x + 1)" using x by (rule expo_upper)
      also have "\<dots> \<le> 2 powi (- 1021)" using True by (intro power_int_increasing) auto
      finally show ?thesis .
    qed
    moreover have "(2::real) powi (- 1021) + 2 powi (- 1074) / 2 < 1"
      by (simp add: power_int_minus field_simps)
    ultimately show ?thesis using n by linarith
  next
    case False
    then have "ulp = 2 powi (expo x) / 2 ^ 52" by (simp add: ulp_def E_def power_int_diff)
    moreover have "2 powi (expo x) \<le> x" using x by (rule expo_lower)
    ultimately have "ulp / 2 \<le> x / 2 ^ 53" by (simp add: field_simps)
    then have "x + ulp / 2 \<le> x * (1 + 1 / 2 ^ 53)" by (simp add: field_simps)
    also have "\<dots> \<le> n * (1 - 1 / 2 ^ 53) * (1 + 1 / 2 ^ 53)"
      using xn by (simp add: mult_right_mono)
    also have "\<dots> = n * (1 - 1 / 2 ^ 106)" by (simp add: field_simps)
    also have "\<dots> < n" using n by (simp add: field_simps)
    finally show ?thesis .
  qed
  with b show ?thesis by (simp add: x_def)
qed

section \<open>Loops over pixels\<close>

lemma fold_pixels:
  fixes f :: "nat \<Rightarrow> byte list \<Rightarrow> byte list"
  assumes len: "\<And>i d. length (f i d) = length d"
    and frame: "\<And>i d j. j < 4 * i \<or> 4 * i + 4 \<le> j \<Longrightarrow> f i d ! j = d ! j"
    and loc: "\<And>i d d' j. length d = length d' \<Longrightarrow>
                (\<And>m. 4 * i \<le> m \<Longrightarrow> m < 4 * i + 4 \<Longrightarrow> m < length d \<Longrightarrow> d ! m = d' ! m) \<Longrightarrow>
                4 * i \<le> j \<Longrightarrow> j < 4 * i + 4 \<Longrightarrow> j < length d \<Longrightarrow> f i d ! j = f i d' ! j"
  shows "length (fold f [k..<n] d) = length d \<and>
         (\<forall>j<length d. fold f [k..<n] d ! j
             = (if 4 * k \<le> j \<and> j < 4 * n then f (j div 4) d ! j else d ! j))"
proof (induction "n - k" arbitrary: k d)
  case 0
  then have "[k..<n] = []" by simp
  then show ?case using 0 by auto
next
  case (Suc m)
  then have kn: "k < n" and m: "m = n - Suc k" by auto
  have up: "[k..<n] = k # [Suc k..<n]" using kn by (simp add: upt_conv_Cons)
  let ?d = "f k d"
  from Suc.hyps(1) [OF m, of ?d]
  have L: "length (fold f [Suc k..<n] ?d) = length d"
    and N: "\<And>j. j < length d \<Longrightarrow> fold f [Suc k..<n] ?d ! j
             = (if 4 * Suc k \<le> j \<and> j < 4 * n then f (j div 4) ?d ! j else ?d ! j)"
    by (simp_all add: len)
  show ?case
  proof (intro conjI allI impI)
    show "length (fold f [k..<n] d) = length d" using L by (simp add: up)
  next
    fix j assume j: "j < length d"
    consider "j < 4 * k" | "4 * k \<le> j" "j < 4 * k + 4" | "4 * Suc k \<le> j" "j < 4 * n" | "4 * n \<le> j" "4 * Suc k \<le> j"
      by atomize_elim auto
    then show "fold f [k..<n] d ! j = (if 4 * k \<le> j \<and> j < 4 * n then f (j div 4) d ! j else d ! j)"
    proof cases
      case 1
      then show ?thesis using N [OF j] frame [of j k d] by (simp add: up)
    next
      case 2
      then have "j div 4 = k" by simp
      moreover from 2 kn have "j < 4 * n" by simp
      ultimately show ?thesis using N [OF j] 2 by (simp add: up)
    next
      case 3
      define q where "q = j div 4"
      have q: "4 * q \<le> j" "j < 4 * q + 4" "Suc k \<le> q" using 3 by (simp_all add: q_def)
      have "f q ?d ! j = f q d ! j"
      proof (rule loc)
        show "length ?d = length d" by (simp add: len)
      next
        fix m assume "4 * q \<le> m" "m < 4 * q + 4"
        with q show "?d ! m = d ! m" by (intro frame) simp
      qed (use q j in \<open>simp_all add: len\<close>)
      then show ?thesis using N [OF j] 3 by (simp add: up q_def)
    next
      case 4
      then show ?thesis using N [OF j] frame [of j k d] by (simp add: up)
    qed
  qed
qed


section \<open>applyThreshold\<close>

lemma binary64_0 [simp]: "binary64 0 = 0"
  by (simp add: binary64_def round_even_def)

lemma binary64_255: "binary64 255 = 255"
  by (simp add: binary64_def expo_def expo_hi.simps round_even_def Let_def power_int_minus)

lemma pixel_starts_fold: "fold f (pixel_starts len) d = fold (\<lambda>k. f (4 * k)) [0..<(len + 3) div 4] d"
  by (simp add: pixel_starts_def fold_map comp_def)

lemma num_0 [simp]: "num 0 = 0" by (simp add: num_def)
lemma num_255 [simp]: "num 255 = 255" by (simp add: num_def)

lemma threshold_step_eq:
  "threshold_step t i d = d[i := thr_val t d i, i + 1 := thr_val t d i, i + 2 := thr_val t d i]"
  by (auto simp: threshold_step_def thr_val_def rd_def Let_def)

lemma thr_val_cases: "thr_val t d i = 0 \<or> thr_val t d i = 255"
  by (simp add: thr_val_def)

lemma thr_val_cong:
  assumes "length d = length d'" "i + 2 < length d \<Longrightarrow> d ! i = d' ! i \<and> d ! (i + 1) = d' ! (i + 1) \<and> d ! (i + 2) = d' ! (i + 2)"
  shows "thr_val t d i = thr_val t d' i"
  using assms by (auto simp: thr_val_def)

lemma thr_val_idem:
  assumes "0 < t" "t \<le> 255"
  shows "thr_val t (threshold_step t i d) i = thr_val t d i"
proof (cases "i + 2 < length d")
  case True
  from thr_val_cases [of t d i] show ?thesis
  proof
    assume v: "thr_val t d i = 0"
    with True assms show ?thesis
      by (simp add: threshold_step_eq) (simp add: thr_val_def fdiv_def)
  next
    assume v: "thr_val t d i = 255"
    with True assms show ?thesis
      by (simp add: threshold_step_eq) (simp add: thr_val_def fdiv_def binary64_255)
  qed
next
  case False
  then show ?thesis by (simp add: threshold_step_eq thr_val_def)
qed

lemma upd3_nth:
  "j < length d \<Longrightarrow> d[i := a, i + 1 := b, i + 2 := c] ! j
      = (if j = i + 2 then c else if j = i + 1 then b else if j = i then a else d ! j)"
  by (simp add: nth_list_update)

lemma threshold_step_length [simp]: "length (threshold_step t i d) = length d"
  by (simp add: threshold_step_eq)

lemma threshold_step_nth:
  "j < length d \<Longrightarrow> threshold_step t i d ! j = (if i \<le> j \<and> j < i + 3 then thr_val t d i else d ! j)"
  by (simp only: threshold_step_eq upd3_nth) auto

lemma threshold_step_idem:
  assumes "0 < t" "t \<le> 255"
  shows "threshold_step t i (threshold_step t i d) = threshold_step t i d"
  by (rule nth_equalityI) (simp_all add: threshold_step_nth thr_val_idem [OF assms])

lemma threshold_fold:
  "length (fold (\<lambda>k. threshold_step t (4 * k)) [k..<n] d) = length d \<and>
   (\<forall>j<length d. fold (\<lambda>k. threshold_step t (4 * k)) [k..<n] d ! j
       = (if 4 * k \<le> j \<and> j < 4 * n then threshold_step t (4 * (j div 4)) d ! j else d ! j))"
proof (rule fold_pixels)
  fix i :: nat and d :: "byte list"
  show "length (threshold_step t (4 * i) d) = length d" by simp
next
  fix i j :: nat and d :: "byte list"
  assume "j < 4 * i \<or> 4 * i + 4 \<le> j"
  then show "threshold_step t (4 * i) d ! j = d ! j" by (auto simp: threshold_step_eq)
next
  fix i j :: nat and d d' :: "byte list"
  assume l: "length d = length d'"
    and e: "\<And>m. 4 * i \<le> m \<Longrightarrow> m < 4 * i + 4 \<Longrightarrow> m < length d \<Longrightarrow> d ! m = d' ! m"
    and j: "4 * i \<le> j" "j < 4 * i + 4" "j < length d"
  have "thr_val t d (4 * i) = thr_val t d' (4 * i)"
    by (rule thr_val_cong [OF l]) (simp add: e)
  then show "threshold_step t (4 * i) d ! j = threshold_step t (4 * i) d' ! j"
    using l j e [of j] by (simp add: threshold_step_nth)
qed

lemma applyThreshold_nth:
  assumes "0 < t" "j < length d"
  shows "applyThreshold d t ! j = threshold_step t (4 * (j div 4)) d ! j"
    and "length (applyThreshold d t) = length d"
proof -
  have "j < 4 * ((length d + 3) div 4)" using assms by linarith
  then show "applyThreshold d t ! j = threshold_step t (4 * (j div 4)) d ! j"
    using assms threshold_fold [of t 0 "(length d + 3) div 4" d]
    by (simp add: applyThreshold_def pixel_starts_fold)
  show "length (applyThreshold d t) = length d"
    using assms threshold_fold [of t 0 "(length d + 3) div 4" d]
    by (simp add: applyThreshold_def pixel_starts_fold)
qed

lemma applyThreshold_length: "length (applyThreshold d t) = length d"
  using threshold_fold [of t 0 "(length d + 3) div 4" d]
  by (simp add: applyThreshold_def pixel_starts_fold)

lemma applyThreshold_idem:
  assumes t: "0 < t" "t \<le> 255"
  shows "applyThreshold (applyThreshold d t) t = applyThreshold d t"
proof (rule nth_equalityI)
  show "length (applyThreshold (applyThreshold d t) t) = length (applyThreshold d t)"
    by (simp add: applyThreshold_length)
next
  fix j assume "j < length (applyThreshold (applyThreshold d t) t)"
  then have j: "j < length d" by (simp add: applyThreshold_length)
  define q where "q = j div 4"
  let ?o = "applyThreshold d t"
  have q: "4 * q \<le> j" "j < 4 * q + 4" by (simp_all add: q_def)
  have "?o ! j = threshold_step t (4 * q) d ! j"
    using applyThreshold_nth(1) [OF t(1) j] by (simp add: q_def)
  moreover have "applyThreshold ?o t ! j = threshold_step t (4 * q) ?o ! j"
    using applyThreshold_nth(1) [OF t(1), of j ?o] j by (simp add: q_def applyThreshold_length)
  moreover have "threshold_step t (4 * q) ?o ! j = threshold_step t (4 * q) (threshold_step t (4 * q) d) ! j"
  proof -
    have agree: "\<And>m. 4 * q \<le> m \<Longrightarrow> m < 4 * q + 4 \<Longrightarrow> m < length d \<Longrightarrow> ?o ! m = threshold_step t (4 * q) d ! m"
    proof -
      fix m assume m: "4 * q \<le> m" "m < 4 * q + 4" "m < length d"
      then have "m div 4 = q" by simp
      then show "?o ! m = threshold_step t (4 * q) d ! m"
        using applyThreshold_nth(1) [OF t(1) m(3)] by simp
    qed
    have "thr_val t ?o (4 * q) = thr_val t (threshold_step t (4 * q) d) (4 * q)"
      by (rule thr_val_cong) (simp_all add: applyThreshold_length agree)
    then show ?thesis
      using j q agree [of j]
      by (simp add: threshold_step_nth applyThreshold_length)
  qed
  ultimately show "applyThreshold ?o t ! j = ?o ! j"
    by (simp add: threshold_step_idem [OF t])
qed


lemma applyThreshold_px:
  assumes "0 < t" "4 * p + c < length d" "c < 4"
  shows "applyThreshold d t ! (4 * p + c) = (if c < 3 then thr_val t d (4 * p) else d ! (4 * p + c))"
proof -
  have "(4 * p + c) div 4 = p" using assms(3) by simp
  then have "applyThreshold d t ! (4 * p + c) = threshold_step t (4 * p) d ! (4 * p + c)"
    using applyThreshold_nth(1) [OF assms(1,2)] by simp
  then show ?thesis using assms by (simp add: threshold_step_nth)
qed

text \<open>
  Claim C1. For every buffer and every threshold \<open>t\<close> with \<open>0 < t \<le> 255\<close>, after the
  threshold pass the R, G and B channels of each pixel are all 255 when
  \<open>(R + G + B) / 3 \<ge> t\<close> and all 0 otherwise, the alpha channel is unchanged, and
  a second pass with the same \<open>t\<close> changes nothing.
\<close>

theorem applyThreshold_binary_idempotent:
  assumes "0 < t" and "t \<le> 255"
  shows "length (applyThreshold data t) = length data
    \<and> (\<forall>p. 4 * p + 3 < length data \<longrightarrow>
          (let v = (if t \<le> fdiv (of_int (num (data ! (4 * p)) + num (data ! (4 * p + 1))
                                       + num (data ! (4 * p + 2)))) 3
                    then 255 else 0)
           in applyThreshold data t ! (4 * p) = v
            \<and> applyThreshold data t ! (4 * p + 1) = v
            \<and> applyThreshold data t ! (4 * p + 2) = v
            \<and> applyThreshold data t ! (4 * p + 3) = data ! (4 * p + 3)))
    \<and> applyThreshold (applyThreshold data t) t = applyThreshold data t"
proof (intro conjI allI impI)
  show "length (applyThreshold data t) = length data" by (rule applyThreshold_length)
next
  fix p assume p: "4 * p + 3 < length data"
  have "applyThreshold data t ! (4 * p) = thr_val t data (4 * p)"
    "applyThreshold data t ! (4 * p + 1) = thr_val t data (4 * p)"
    "applyThreshold data t ! (4 * p + 2) = thr_val t data (4 * p)"
    "applyThreshold data t ! (4 * p + 3) = data ! (4 * p + 3)"
    using p assms(1) applyThreshold_px [of t p 0 data] applyThreshold_px [of t p 1 data]
      applyThreshold_px [of t p 2 data] applyThreshold_px [of t p 3 data]
    by simp_all
  moreover have "thr_val t data (4 * p)
      = (if t \<le> fdiv (of_int (num (data ! (4 * p)) + num (data ! (4 * p + 1))
                                + num (data ! (4 * p + 2)))) 3 then 255 else 0)"
    using p by (simp add: thr_val_def)
  ultimately show "let v = (if t \<le> fdiv (of_int (num (data ! (4 * p)) + num (data ! (4 * p + 1))
                                       + num (data ! (4 * p + 2)))) 3
                    then 255 else 0)
           in applyThreshold data t ! (4 * p) = v
            \<and> applyThreshold data t ! (4 * p + 1) = v
            \<and> applyThreshold data t ! (4 * p + 2) = v
            \<and> applyThreshold data t ! (4 * p + 3) = data ! (4 * p + 3)"
    by (simp add: Let_def)
next
  show "applyThreshold (applyThreshold data t) t = applyThreshold data t"
    using assms by (rule applyThreshold_idem)
qed

lemma binary64_120: "binary64 120 = 120"
  by (simp add: binary64_def expo_def expo_hi.simps round_even_def Let_def power_int_minus)

theorem applyThreshold_binary_idempotent_witness:
  "applyThreshold [200, 100, 60, 128] 100 ! 0 = 255
   \<and> applyThreshold [200, 100, 60, 128] 100 ! 1 = 255
   \<and> applyThreshold [200, 100, 60, 128] 100 ! 2 = 255
   \<and> applyThreshold [200, 100, 60, 128] 100 ! 3 = 128
   \<and> length (applyThreshold [200, 100, 60, 128] 100) = 4
   \<and> applyThreshold (applyThreshold [200, 100, 60, 128] 100) 100
       = applyThreshold [200, 100, 60, 128] 100"
proof -
  have h: "(0::real) < 100" "(100::real) \<le> 255" by simp_all
  have v: "fdiv (of_int (num (200::byte) + num (100::byte) + num (60::byte))) 3 = 120"
    by (simp add: num_def fdiv_def binary64_120)
  note T = applyThreshold_binary_idempotent [OF h, of "[200, 100, 60, 128]"]
  from T have "applyThreshold [200, 100, 60, 128] 100 ! (4 * 0) = 255
      \<and> applyThreshold [200, 100, 60, 128] 100 ! (4 * 0 + 1) = 255
      \<and> applyThreshold [200, 100, 60, 128] 100 ! (4 * 0 + 2) = 255
      \<and> applyThreshold [200, 100, 60, 128] 100 ! (4 * 0 + 3) = 128"
    using v by (auto simp: Let_def dest!: spec [of _ 0])
  with T show ?thesis by (simp add: numeral_2_eq_2)
qed
section \<open>Draws and randomInt\<close>

lemma floor_draw:
  assumes "is_draw u" "1 \<le> k"
  shows "0 \<le> \<lfloor>binary64 (u * of_int k)\<rfloor> \<and> \<lfloor>binary64 (u * of_int k)\<rfloor> < k"
proof -
  have u: "0 \<le> u" "u \<le> 1 - 1 / 2 ^ 53" using assms(1) by (simp_all add: is_draw_def)
  have k: "(1::real) \<le> of_int k" using assms(2) by simp
  have "0 \<le> binary64 (u * of_int k)" using u k by (intro binary64_nonneg) simp
  moreover have "binary64 (u * of_int k) < of_int k" using u k by (rule binary64_below)
  ultimately show ?thesis by (simp add: floor_less_iff)
qed

lemma floor_draw_neg:
  assumes "is_draw u" "k \<le> - 1"
  shows "k \<le> \<lfloor>binary64 (u * of_int k)\<rfloor> \<and> \<lfloor>binary64 (u * of_int k)\<rfloor> \<le> 0"
proof -
  define m where "m = - k"
  have m: "1 \<le> m" and k: "k = - m" using assms(2) by (simp_all add: m_def)
  define v where "v = binary64 (u * of_int m)"
  from floor_draw [OF assms(1) m] have "0 \<le> \<lfloor>v\<rfloor>" "\<lfloor>v\<rfloor> < m" by (simp_all add: v_def)
  then have v: "0 \<le> v" "v < of_int m" by (simp_all add: floor_less_iff)
  have "u * of_int k = - (u * of_int m)" by (simp add: k)
  then have "binary64 (u * of_int k) = - v" by (simp only: binary64_minus v_def)
  moreover have "of_int k \<le> - v" using v(2) by (simp add: k)
  moreover have "- v < 1" using v(1) by simp
  ultimately show ?thesis by (simp add: le_floor_iff floor_le_iff)
qed

lemma randomInt_eq: "randomInt u lo hi = \<lfloor>binary64 (u * of_int (hi - lo + 1))\<rfloor> + lo"
  unfolding randomInt_def fmul_def ..

lemma randomInt_proper:
  assumes "is_draw u" "lo \<le> hi"
  shows "lo \<le> randomInt u lo hi \<and> randomInt u lo hi \<le> hi"
proof -
  from assms(2) have "1 \<le> hi - lo + 1" by simp
  from floor_draw [OF assms(1) this] show ?thesis unfolding randomInt_eq by linarith
qed

lemma randomInt_reversed:
  assumes "is_draw u" "hi < lo"
  shows "hi + 1 \<le> randomInt u lo hi \<and> randomInt u lo hi \<le> lo"
proof (cases "hi + 1 = lo")
  case True
  then have "hi - lo + 1 = 0" by simp
  then have "randomInt u lo hi = lo" unfolding randomInt_eq by (simp only:) simp
  with True show ?thesis by simp
next
  case False
  with assms(2) have "hi - lo + 1 \<le> - 1" by simp
  from floor_draw_neg [OF assms(1) this] show ?thesis unfolding randomInt_eq by linarith
qed


section \<open>applyRGBShift\<close>

lemma shl2_small: "0 \<le> n \<Longrightarrow> n * 4 < 2 ^ 31 \<Longrightarrow> shl2 n = 4 * n"
  by (simp add: shl2_def toInt32_def)

lemma ushr2_small: "4 * n < 2 ^ 31 \<Longrightarrow> ushr2 (4 * n) = n"
  by (simp add: ushr2_def)

lemma js_rem_nonneg: "0 \<le> a \<Longrightarrow> 0 < b \<Longrightarrow> js_rem a b = a mod b"
  by (cases "a = 0") (simp_all add: js_rem_def)

lemma pixel_index:
  fixes x y W H :: nat
  assumes "x < W" "y < H"
  shows "y * W + x < W * H"
proof -
  have "y * W + x < y * W + W" using assms by simp
  also have "\<dots> = (y + 1) * W" by simp
  also have "\<dots> \<le> H * W" using assms by (intro mult_right_mono) auto
  finally show ?thesis by (simp add: mult.commute)
qed

lemma int_div_pixel:
  assumes "0 < W"
  shows "(int n - int (n mod W)) div int W = int (n div W)"
proof -
  have "int n = int (W * (n div W) + n mod W)" by simp
  also have "\<dots> = int W * int (n div W) + int (n mod W)" by (simp only: of_nat_add of_nat_mult)
  finally have "int n - int (n mod W) = int W * int (n div W)" by simp
  then show ?thesis using assms by simp
qed

lemma shl2_pixel:
  fixes m N :: nat
  assumes "m < N" "4 * N < 2 ^ 31"
  shows "shl2 (int m) = int (4 * m)"
proof -
  have "4 * m < 4 * N" using assms(1) by simp
  then have "4 * m < 2 ^ 31" using assms(2) by (rule less_trans)
  then have "int (4 * m) < 2 ^ 31" by (simp only: of_nat_less_numeral_power_cancel_iff)
  then have "int m * 4 < 2 ^ 31" by simp
  then show ?thesis by (simp add: shl2_small)
qed

lemma ushr2_pixel:
  fixes m N :: nat
  assumes "m < N" "4 * N < 2 ^ 31"
  shows "ushr2 (4 * m) = m"
proof -
  have "4 * m < 4 * N" using assms(1) by simp
  then have "4 * m < 2 ^ 31" using assms(2) by (rule less_trans)
  then show ?thesis by (rule ushr2_small)
qed

lemma row_col_index:
  fixes n W H :: nat
  assumes "n < W * H"
  shows "n div W * W + c mod W < W * H"
proof -
  have W: "0 < W" using assms by (cases W) auto
  have "n div W < H" using assms W by (simp add: less_mult_imp_div_less mult.commute)
  moreover have "c mod W < W" using W by simp
  ultimately show ?thesis by (intro pixel_index)
qed

lemma rgbshift_index_wf:
  assumes n: "n < W * H" and sz: "4 * (W * H) < 2 ^ 31" and off: "0 \<le> offset"
  shows "rgbshift_index W offset (4 * n) = int (4 * (n div W * W + (n mod W + nat offset) mod W))"
proof -
  have W: "0 < W" using n by (cases W) auto
  have u: "ushr2 (4 * n) = n" using n sz by (rule ushr2_pixel)
  have x: "js_rem (int n) (int W) = int (n mod W)"
    using W by (simp add: js_rem_nonneg flip: of_nat_mod)
  have y: "(int n - int (n mod W)) div int W = int (n div W)" using W by (rule int_div_pixel)
  have nx: "js_rem (int (n mod W) + offset) (int W) = int ((n mod W + nat offset) mod W)"
    using W off by (simp add: js_rem_nonneg zmod_int)
  have "shl2 (int (n div W * W + (n mod W + nat offset) mod W))
      = int (4 * (n div W * W + (n mod W + nat offset) mod W))"
    using row_col_index [OF n] sz by (rule shl2_pixel)
  moreover have "int (n div W) * int W + int ((n mod W + nat offset) mod W)
      = int (n div W * W + (n mod W + nat offset) mod W)" by simp
  ultimately have "shl2 (int (n div W) * int W + int ((n mod W + nat offset) mod W))
      = int (4 * (n div W * W + (n mod W + nat offset) mod W))" by (simp only:)
  then show ?thesis
    unfolding rgbshift_index_def Let_def u x y nx using W by simp
qed


lemma rgbshift_step_length [simp]: "length (rgbshift_step buf W off i d) = length d"
  by (simp add: rgbshift_step_def Let_def)

lemma rgbshift_fold:
  "length (fold (\<lambda>k. rgbshift_step buf W off (4 * k)) [k..<n] d) = length d \<and>
   (\<forall>j<length d. fold (\<lambda>k. rgbshift_step buf W off (4 * k)) [k..<n] d ! j
       = (if 4 * k \<le> j \<and> j < 4 * n then rgbshift_step buf W off (4 * (j div 4)) d ! j else d ! j))"
proof (rule fold_pixels)
  fix i :: nat and d :: "byte list"
  show "length (rgbshift_step buf W off (4 * i) d) = length d" by simp
next
  fix i j :: nat and d :: "byte list"
  assume "j < 4 * i \<or> 4 * i + 4 \<le> j"
  then show "rgbshift_step buf W off (4 * i) d ! j = d ! j"
    by (auto simp: rgbshift_step_def Let_def)
next
  fix i j :: nat and d d' :: "byte list"
  assume l: "length d = length d'"
    and e: "\<And>m. 4 * i \<le> m \<Longrightarrow> m < 4 * i + 4 \<Longrightarrow> m < length d \<Longrightarrow> d ! m = d' ! m"
    and j: "4 * i \<le> j" "j < 4 * i + 4" "j < length d"
  show "rgbshift_step buf W off (4 * i) d ! j = rgbshift_step buf W off (4 * i) d' ! j"
    using l j e [of j] by (simp add: rgbshift_step_def Let_def nth_list_update)
qed

lemma applyRGBShift_nth:
  assumes "j < length d" "off \<noteq> 0"
  shows "applyRGBShift d W H off ! j = rgbshift_step d W off (4 * (j div 4)) d ! j"
proof -
  have "j < 4 * ((length d + 3) div 4)" using assms(1) by linarith
  then show ?thesis
    using assms rgbshift_fold [of d W off 0 "(length d + 3) div 4" d]
    by (simp add: applyRGBShift_def pixel_starts_fold)
qed

lemma applyRGBShift_length: "length (applyRGBShift d W H off) = length d"
  using rgbshift_fold [of d W off 0 "(length d + 3) div 4" d]
  by (simp add: applyRGBShift_def pixel_starts_fold)

lemma rgbshift_step_at:
  assumes "rgbshift_index W off i = int k" "k < length d" "i < length d"
  shows "rgbshift_step buf W off i d ! j = (if j = i then store (rd buf k) else d ! j)"
  using assms by (simp add: rgbshift_step_def rdi_def)

lemma applyRGBShift_pixel:
  assumes len: "length d = 4 * (W * H)" and sz: "4 * (W * H) < 2 ^ 31" and off: "0 \<le> off"
    and n: "n < W * H" and ch: "ch < 4"
  shows "applyRGBShift d W H off ! (4 * n + ch)
      = (if ch = 0 then d ! (4 * (n div W * W + (n mod W + nat off) mod W)) else d ! (4 * n + ch))"
proof (cases "off = 0")
  case True
  have W: "0 < W" using n by (cases W) auto
  then have "n div W * W + n mod W mod W = n" by simp
  with True show ?thesis by (simp add: applyRGBShift_def)
next
  case False
  have j: "4 * n + ch < length d" "(4 * n + ch) div 4 = n" using len n ch by simp_all
  let ?m = "n div W * W + (n mod W + nat off) mod W"
  have m: "4 * ?m < length d" using row_col_index [OF n, of "n mod W + nat off"] len by simp
  have i: "rgbshift_index W off (4 * n) = int (4 * ?m)" using n sz off by (rule rgbshift_index_wf)
  have "applyRGBShift d W H off ! (4 * n + ch) = rgbshift_step d W off (4 * n) d ! (4 * n + ch)"
    using applyRGBShift_nth [OF j(1) False, of W H] j(2) by simp
  also have "\<dots> = (if ch = 0 then d ! (4 * ?m) else d ! (4 * n + ch))"
    using m j(1) by (simp add: rgbshift_step_at [OF i m] rd_def store_def)
  finally show ?thesis .
qed

text \<open>
  Claim C7. The channel-shift pass with offset 0 returns the buffer as it is. For
  a \<open>width \<times> height\<close> buffer (below \<open>2^31\<close> bytes, as every canvas is), every
  offset \<open>\<ge> 0\<close> (so every offset in \<open>[0, 50]\<close>) and every pixel \<open>(x, y)\<close>, the red
  channel becomes the red channel the buffer had before the pass at column
  \<open>(x + offset) mod width\<close> of the same row; green, blue and alpha are unchanged.
\<close>

theorem channel_shift_red:
  "applyRGBShift data width height 0 = data
   \<and> (length data = 4 * (width * height) \<and> 4 * (width * height) < 2 ^ 31 \<and> 0 \<le> offset
        \<and> x < width \<and> y < height \<longrightarrow>
      length (applyRGBShift data width height offset) = length data
      \<and> applyRGBShift data width height offset ! (4 * (y * width + x))
          = data ! (4 * (y * width + (x + nat offset) mod width))
      \<and> (\<forall>ch. 1 \<le> ch \<and> ch < 4 \<longrightarrow>
            applyRGBShift data width height offset ! (4 * (y * width + x) + ch)
              = data ! (4 * (y * width + x) + ch)))"
proof (intro conjI impI allI)
  show "applyRGBShift data width height 0 = data" by (simp add: applyRGBShift_def)
next
  assume a: "length data = 4 * (width * height) \<and> 4 * (width * height) < 2 ^ 31 \<and> 0 \<le> offset
        \<and> x < width \<and> y < height"
  show "length (applyRGBShift data width height offset) = length data"
    by (rule applyRGBShift_length)
  from a have n: "y * width + x < width * height" by (intro pixel_index) simp_all
  from a have dm: "(y * width + x) div width = y" "(y * width + x) mod width = x" by simp_all
  from a n show "applyRGBShift data width height offset ! (4 * (y * width + x))
          = data ! (4 * (y * width + (x + nat offset) mod width))"
    using applyRGBShift_pixel [of data width height offset "y * width + x" 0] by (simp add: dm)
  fix ch :: nat assume "1 \<le> ch \<and> ch < 4"
  with a n show "applyRGBShift data width height offset ! (4 * (y * width + x) + ch)
              = data ! (4 * (y * width + x) + ch)"
    using applyRGBShift_pixel [of data width height offset "y * width + x" ch] by simp
qed

theorem channel_shift_red_witness:
  "applyRGBShift [1, 2, 3, 4, 5, 6, 7, 8] 2 1 1 ! 0 = 5
   \<and> applyRGBShift [1, 2, 3, 4, 5, 6, 7, 8] 2 1 1 ! 1 = 2
   \<and> applyRGBShift [1, 2, 3, 4, 5, 6, 7, 8] 2 1 1 ! 3 = 4
   \<and> length (applyRGBShift [1, 2, 3, 4, 5, 6, 7, 8] 2 1 1) = 8"
proof -
  have h: "length [1, 2, 3, 4, 5, 6, 7, 8 :: byte] = 4 * (2 * 1) \<and> 4 * (2 * 1) < (2::nat) ^ 31
      \<and> (0::int) \<le> 1 \<and> (0::nat) < 2 \<and> (0::nat) < 1"
    by simp
  from channel_shift_red [of "[1, 2, 3, 4, 5, 6, 7, 8]" 2 1 1 0 0] h
  have "length (applyRGBShift [1, 2, 3, 4, 5, 6, 7, 8] 2 1 1) = 8"
    and "applyRGBShift [1, 2, 3, 4, 5, 6, 7, 8] 2 1 1 ! (4 * (0 * 2 + 0)) = 5"
    and "\<forall>ch. 1 \<le> ch \<and> ch < 4 \<longrightarrow> applyRGBShift [1, 2, 3, 4, 5, 6, 7, 8] 2 1 1 ! (4 * (0 * 2 + 0) + ch)
              = [1, 2, 3, 4, 5, 6, 7, 8] ! (4 * (0 * 2 + 0) + ch)"
    by simp_all
  then show ?thesis by (auto dest: spec [of _ 1] spec [of _ 3])
qed
section \<open>hexToRgb and applyChromaKey\<close>

lemma hex_value_iff: "hex_value ch \<noteq> None \<longleftrightarrow> is_hex_char ch"
  by (auto simp: hex_value_def is_hex_char_def)

lemma hex_digit_value: "is_hex_char ch \<Longrightarrow> hex_digit ch = hex_value ch"
  by (auto simp: hex_value_def is_hex_char_def hex_digit_def)

lemma is_hex_color_alt:
  "is_hex_color s \<longleftrightarrow>
     (length s = 6 \<and> list_all is_hex_char s)
     \<or> (length s = 7 \<and> hd s = CHR ''#'' \<and> list_all is_hex_char (tl s))"
  unfolding is_hex_color_def hex_value_iff ..

lemma hex_char_not_hash: "is_hex_char ch \<Longrightarrow> ch \<noteq> CHR ''#''"
  by (auto simp: is_hex_char_def)

lemma parse_pair:
  assumes "is_hex_char a" "is_hex_char b"
  shows "parseInt16 [a, b] = channel_value a b"
proof -
  from assms obtain x y where "hex_value a = Some x" "hex_value b = Some y"
    using hex_value_iff by fastforce
  with assms show ?thesis
    by (simp add: parseInt16_def channel_value_def hex_digit_value)
qed

lemma six_chars:
  assumes "length (body :: string) = 6"
  obtains a b c d e f where "body = [a, b, c, d, e, f]"
  using assms by (auto simp: length_Suc_conv eval_nat_numeral)

lemma hex_exec_body:
  assumes "length body = 6" "list_all is_hex_char body"
  shows "hex_exec body = Some (take 2 body, take 2 (drop 2 body), drop 4 body)"
    and "hex_exec (CHR ''#'' # body) = Some (take 2 body, take 2 (drop 2 body), drop 4 body)"
proof -
  from assms(1) obtain a b c d e f where b: "body = [a, b, c, d, e, f]" by (rule six_chars)
  with assms(2) have "a \<noteq> CHR ''#''" using hex_char_not_hash by simp
  with assms b show "hex_exec body = Some (take 2 body, take 2 (drop 2 body), drop 4 body)"
    by (simp add: hex_exec_def)
  from assms show "hex_exec (CHR ''#'' # body) = Some (take 2 body, take 2 (drop 2 body), drop 4 body)"
    by (simp add: hex_exec_def)
qed

lemma hexToRgb_body:
  assumes "length body = 6" "list_all is_hex_char body"
  shows "hexToRgb body = rgb_value body" and "hexToRgb (CHR ''#'' # body) = rgb_value (CHR ''#'' # body)"
proof -
  from assms(1) obtain a b c d e f where b: "body = [a, b, c, d, e, f]" by (rule six_chars)
  with assms(2) have h: "is_hex_char a" "is_hex_char b" "is_hex_char c" "is_hex_char d"
    "is_hex_char e" "is_hex_char f" by simp_all
  show "hexToRgb body = rgb_value body"
    unfolding hexToRgb_def hex_exec_body(1) [OF assms]
    using h by (simp add: b rgb_value_def parse_pair)
  show "hexToRgb (CHR ''#'' # body) = rgb_value (CHR ''#'' # body)"
    unfolding hexToRgb_def hex_exec_body(2) [OF assms]
    using h by (simp add: b rgb_value_def parse_pair)
qed

lemma is_hex_color_iff: "is_hex_color s \<longleftrightarrow> hex_exec s \<noteq> None"
proof
  assume "is_hex_color s"
  then consider "length s = 6" "list_all is_hex_char s"
    | "length s = 7" "hd s = CHR ''#''" "list_all is_hex_char (tl s)"
    by (auto simp: is_hex_color_alt)
  then show "hex_exec s \<noteq> None"
  proof cases
    case 1
    then show ?thesis by (simp add: hex_exec_body(1))
  next
    case 2
    then have "s = CHR ''#'' # tl s" by (cases s) auto
    moreover from 2 have "length (tl s) = 6" by simp
    ultimately show ?thesis using hex_exec_body(2) [of "tl s"] 2 by simp
  qed
next
  assume a: "hex_exec s \<noteq> None"
  show "is_hex_color s"
  proof (cases s)
    case Nil
    with a show ?thesis by (simp add: hex_exec_def)
  next
    case (Cons ch rest)
    show ?thesis
    proof (cases "ch = CHR ''#''")
      case True
      with a Cons show ?thesis
        by (auto simp: hex_exec_def is_hex_color_alt Let_def split: if_splits)
    next
      case False
      with a Cons show ?thesis
        by (auto simp: hex_exec_def is_hex_color_alt Let_def split: if_splits)
    qed
  qed
qed

lemma hexToRgb_wellformed: "is_hex_color s \<Longrightarrow> hexToRgb s = rgb_value s"
proof -
  assume "is_hex_color s"
  then consider "length s = 6" "list_all is_hex_char s"
    | "length s = 7" "hd s = CHR ''#''" "list_all is_hex_char (tl s)"
    by (auto simp: is_hex_color_alt)
  then show ?thesis
  proof cases
    case 1
    then show ?thesis by (rule hexToRgb_body(1))
  next
    case 2
    then have "s = CHR ''#'' # tl s" by (cases s) auto
    moreover from 2 have "length (tl s) = 6" by simp
    ultimately show ?thesis using hexToRgb_body(2) [of "tl s"] 2 by simp
  qed
qed

lemma hexToRgb_malformed: "\<not> is_hex_color s \<Longrightarrow> hexToRgb s = (0, 255, 0)"
proof -
  assume "\<not> is_hex_color s"
  then have "hex_exec s = None" using is_hex_color_iff [of s] by blast
  then show ?thesis by (simp add: hexToRgb_def)
qed

lemma hexToRgb_default: "hexToRgb ''#00ff00'' = (0, 255, 0)"
  by (simp add: hexToRgb_def hex_exec_def is_hex_char_def parseInt16_def hex_digit_def)

lemma chroma_px_key:
  "hexToRgb (keyColor p) = hexToRgb (keyColor q) \<Longrightarrow> similarity p = similarity q \<Longrightarrow>
   smoothness p = smoothness q \<Longrightarrow> spill p = spill q \<Longrightarrow> chroma_px p = chroma_px q"
  by (intro ext) (simp add: chroma_px_def distThresholdSq_def smoothRange_def Let_def
        cong: option.case_cong prod.case_cong if_cong)

text \<open>
  Claim C9. A key colour string that is not a well-formed six-digit hexadecimal
  colour (with or without a leading \<^verbatim>\<open>#\<close>) parses to the colour of
  \<^verbatim>\<open>#00ff00\<close>, and the chroma-key stage then behaves, for every buffer and
  every other parameter, exactly as with the key colour \<^verbatim>\<open>#00ff00\<close>. A
  well-formed string parses to its RGB value.
\<close>

theorem chroma_key_color_fallback:
  "(\<not> is_hex_color s \<longrightarrow>
      hexToRgb s = hexToRgb ''#00ff00''
      \<and> applyChromaKey data width height (params\<lparr>keyColor := s\<rparr>)
          = applyChromaKey data width height (params\<lparr>keyColor := ''#00ff00''\<rparr>))
   \<and> (is_hex_color s \<longrightarrow> hexToRgb s = rgb_value s)"
proof (intro conjI impI)
  assume m: "\<not> is_hex_color s"
  then show k: "hexToRgb s = hexToRgb ''#00ff00''"
    by (simp add: hexToRgb_malformed hexToRgb_default)
  have "chroma_px (params\<lparr>keyColor := s\<rparr>) = chroma_px (params\<lparr>keyColor := ''#00ff00''\<rparr>)"
    by (rule chroma_px_key) (simp_all add: k)
  then show "applyChromaKey data width height (params\<lparr>keyColor := s\<rparr>)
          = applyChromaKey data width height (params\<lparr>keyColor := ''#00ff00''\<rparr>)"
    by (simp add: applyChromaKey_def)
next
  assume "is_hex_color s"
  then show "hexToRgb s = rgb_value s" by (rule hexToRgb_wellformed)
qed

theorem chroma_key_color_fallback_witness:
  "hexToRgb ''green'' = (0, 255, 0)
   \<and> applyChromaKey [0, 255, 0, 255] 1 1
        \<lparr>enabled = True, keyColor = ''green'', similarity = 1 / 2, smoothness = 0, spill = 0\<rparr>
      = applyChromaKey [0, 255, 0, 255] 1 1
        \<lparr>enabled = True, keyColor = ''#00ff00'', similarity = 1 / 2, smoothness = 0, spill = 0\<rparr>
   \<and> hexToRgb ''#FF8000'' = (255, 128, 0)"
proof -
  have a: "\<not> is_hex_color ''green''" by (simp add: is_hex_color_def)
  have b: "is_hex_color ''#FF8000''" by (simp add: is_hex_color_def hex_value_def)
  have c: "rgb_value ''#FF8000'' = (255, 128, 0)"
    by (simp add: rgb_value_def channel_value_def hex_value_def)
  from a chroma_key_color_fallback [of "''green''" "[0, 255, 0, 255]" 1 1
      "\<lparr>enabled = True, keyColor = ''green'', similarity = 1 / 2, smoothness = 0, spill = 0\<rparr>"]
    b chroma_key_color_fallback [of "''#FF8000''"] c hexToRgb_default
  show ?thesis by simp
qed

lemma upd4_nth:
  "j < length d \<Longrightarrow> d[i := a, i + 1 := b, i + 2 := c, i + 3 := e] ! j
      = (if j = i + 3 then e else if j = i + 2 then c else if j = i + 1 then b
         else if j = i then a else d ! j)"
  by (simp add: nth_list_update)

lemma upd3_id:
  "i + 2 < length d \<Longrightarrow> d[i := d ! i, i + 1 := d ! (i + 1), i + 2 := d ! (i + 2), k := e] = d[k := e]"
  by (simp add: list_update_swap)

lemma chroma_px_eq:
  "chroma_px p i d =
     (if i * 4 + 2 < length d
      then case chroma_out p (d ! (i * 4)) (d ! (i * 4 + 1)) (d ! (i * 4 + 2)) of
             None \<Rightarrow> d
           | Some (r', g', b', a') \<Rightarrow> d[i * 4 := r', i * 4 + 1 := g', i * 4 + 2 := b', i * 4 + 3 := a']
      else d)"
proof (cases "i * 4 + 2 < length d")
  case True
  then have r: "rd d (i * 4) = Some (d ! (i * 4))" "rd d (i * 4 + 1) = Some (d ! (i * 4 + 1))"
    "rd d (i * 4 + 2) = Some (d ! (i * 4 + 2))" by (simp_all add: rd_def)
  obtain tr tg tb where t: "hexToRgb (keyColor p) = (tr, tg, tb)" by (cases "hexToRgb (keyColor p)")
  show ?thesis
    unfolding chroma_px_def chroma_out_def r t
    using True upd3_id [OF True]
    by (simp add: Let_def)
next
  case False
  then have "rd d (i * 4 + 2) = None" by (simp add: rd_def)
  with False show ?thesis by (simp add: chroma_px_def split: option.splits)
qed


lemma chroma_px_length [simp]: "length (chroma_px p i d) = length d"
  by (simp add: chroma_px_eq split: option.splits)

lemma chroma_px_nth:
  assumes "j < length d"
  shows "chroma_px p i d ! j =
     (if i * 4 + 2 < length d \<and> i * 4 \<le> j \<and> j < i * 4 + 4
      then case chroma_out p (d ! (i * 4)) (d ! (i * 4 + 1)) (d ! (i * 4 + 2)) of
             None \<Rightarrow> d ! j
           | Some (r', g', b', a') \<Rightarrow>
               (if j = i * 4 + 3 then a' else if j = i * 4 + 2 then b'
                else if j = i * 4 + 1 then g' else r')
      else d ! j)"
proof (cases "chroma_out p (d ! (i * 4)) (d ! (i * 4 + 1)) (d ! (i * 4 + 2))")
  case None
  then show ?thesis by (simp add: chroma_px_eq)
next
  case (Some q)
  obtain r' g' b' a' where q: "q = (r', g', b', a')" by (cases q)
  show ?thesis
    unfolding chroma_px_eq Some q
    using assms by (simp only: upd4_nth option.case prod.case split: if_split) auto
qed

lemma chroma_fold:
  "length (fold (chroma_px p) [k..<n] d) = length d \<and>
   (\<forall>j<length d. fold (chroma_px p) [k..<n] d ! j
       = (if 4 * k \<le> j \<and> j < 4 * n then chroma_px p (j div 4) d ! j else d ! j))"
proof (rule fold_pixels)
  fix i :: nat and d :: "byte list"
  show "length (chroma_px p i d) = length d" by simp
next
  fix i j :: nat and d :: "byte list"
  assume o: "j < 4 * i \<or> 4 * i + 4 \<le> j"
  show "chroma_px p i d ! j = d ! j"
  proof (cases "j < length d")
    case True
    then show ?thesis using o by (auto simp: chroma_px_nth)
  next
    case False
    then show ?thesis using o by (auto simp: chroma_px_eq split: option.splits)
  qed
next
  fix i j :: nat and d d' :: "byte list"
  assume l: "length d = length d'"
    and e: "\<And>m. 4 * i \<le> m \<Longrightarrow> m < 4 * i + 4 \<Longrightarrow> m < length d \<Longrightarrow> d ! m = d' ! m"
    and j: "4 * i \<le> j" "j < 4 * i + 4" "j < length d"
  have "i * 4 + 2 < length d \<Longrightarrow>
      d ! (i * 4) = d' ! (i * 4) \<and> d ! (i * 4 + 1) = d' ! (i * 4 + 1) \<and> d ! (i * 4 + 2) = d' ! (i * 4 + 2)"
    using e by simp
  moreover have "d ! j = d' ! j" using e j by simp
  ultimately show "chroma_px p i d ! j = chroma_px p i d' ! j"
    using l j by (auto simp: chroma_px_nth split: option.splits)
qed

lemma applyChromaKey_nth:
  assumes "enabled p" "0 < width" "0 < height"
  shows "\<exists>out. applyChromaKey d width height p = Inr out \<and> length out = length d
           \<and> (\<forall>j<length d. out ! j = chroma_px p (j div 4) d ! j)"
proof -
  have "\<And>j. j < length d \<Longrightarrow> j < 4 * ((length d + 3) div 4)" by linarith
  then show ?thesis
    using assms chroma_fold [of p 0 "(length d + 3) div 4" d]
    by (simp add: applyChromaKey_def)
qed

lemma binary64_ge_half:
  assumes "2 powi (- 1022) \<le> x"
  shows "x / 2 \<le> binary64 x"
proof -
  have x: "0 < x" using assms by (rule less_le_trans [rotated]) simp
  have e: "- 1022 \<le> expo x"
  proof (rule ccontr)
    assume "\<not> - 1022 \<le> expo x"
    then have "expo x + 1 \<le> - 1022" by simp
    then have "(2::real) powi (expo x + 1) \<le> 2 powi (- 1022)"
      by (intro power_int_increasing) auto
    with expo_upper [OF x] assms show False by linarith
  qed
  define ulp :: real where "ulp = 2 powi (expo x - 52)"
  have ulp: "0 < ulp" by (simp add: ulp_def)
  have "ulp = 2 powi (expo x) / 2 ^ 52" by (simp add: ulp_def power_int_diff)
  with expo_lower [OF x] have h: "ulp / 2 \<le> x / 2 ^ 53" by (simp add: field_simps)
  have "binary64 x = of_int (round_even (x / ulp)) * ulp"
    using x e by (simp add: binary64_def Let_def ulp_def max_def)
  moreover have "(x / ulp - 1 / 2) * ulp \<le> of_int (round_even (x / ulp)) * ulp"
    using round_even_lower [of "x / ulp"] ulp by (simp add: mult_right_mono)
  moreover have "(x / ulp - 1 / 2) * ulp = x - ulp / 2" using ulp by (simp add: field_simps)
  ultimately have "x - ulp / 2 \<le> binary64 x" by simp
  moreover have "x / 2 ^ 53 \<le> x / 2" using x by (simp add: field_simps)
  ultimately show ?thesis using h by linarith
qed

lemma fmul_square_pos:
  assumes "2 powi (- 500) \<le> x" "1 \<le> k"
  shows "2 powi (- 1004) \<le> fmul (fmul x k) (fmul x k)"
proof -
  have p: "(2::real) powi (- 1022) \<le> 2 powi (- 500)" "(2::real) powi (- 1022) \<le> 2 powi (- 1002)"
    by (intro power_int_increasing; simp)+
  have xk: "2 powi (- 500) \<le> x * k"
  proof -
    have "(0::real) \<le> 2 powi (- 500)" by (rule zero_le_power_int) simp
    from this assms(1) have x0: "0 \<le> x" by (rule order_trans)
    have "x * 1 \<le> x * k" using assms(2) x0 by (rule mult_left_mono)
    then have "x \<le> x * k" by (simp only: mult_1_right)
    with assms(1) show ?thesis by (rule order_trans)
  qed
  then have "x * k / 2 \<le> fmul x k" unfolding fmul_def using p by (intro binary64_ge_half) linarith
  with xk have y: "2 powi (- 501) \<le> fmul x k"
  proof -
    have "(2::real) powi (- 501) = 2 powi (- 500) / 2" by (simp add: power_int_minus field_simps)
    with xk \<open>x * k / 2 \<le> fmul x k\<close> show ?thesis by linarith
  qed
  define y where "y = fmul x k"
  have y0: "0 \<le> (2::real) powi (- 501)" by simp
  have "(2::real) powi (- 501) * 2 powi (- 501) \<le> y * y"
    using y y0 unfolding y_def by (intro mult_mono) auto
  moreover have "(2::real) powi (- 501) * 2 powi (- 501) = 2 powi (- 1002)"
    by (simp flip: power_int_add)
  ultimately have yy: "2 powi (- 1002) \<le> y * y" by simp
  then have "y * y / 2 \<le> fmul y y" unfolding fmul_def using p by (intro binary64_ge_half) linarith
  moreover have "(2::real) powi (- 1004) \<le> 2 powi (- 1002) / 2"
    by (simp add: power_int_minus field_simps)
  ultimately show ?thesis using yy unfolding y_def by linarith
qed


lemma pos_from_half:
  fixes c q t f :: real
  assumes "0 < c" "c \<le> q" "0 \<le> t" "(t + q) / 2 \<le> f"
  shows "0 < f"
proof -
  from assms(1,2,3) have "0 < (t + q) / 2" by simp
  from this assms(4) show ?thesis by (rule less_le_trans)
qed

lemma fmul_pos:
  assumes "2 powi (- 500) \<le> x" "1 \<le> k"
  shows "0 < fmul x k"
proof -
  have c: "(0::real) < 2 powi (- 500)" by (rule zero_less_power_int) simp
  have x0: "0 \<le> x" using c assms(1) by linarith
  have "x * 1 \<le> x * k" using assms(2) x0 by (rule mult_left_mono)
  then have "x \<le> x * k" by (simp only: mult_1_right)
  with assms(1) have xk: "2 powi (- 500) \<le> x * k" by (rule order_trans)
  have "(2::real) powi (- 1022) \<le> 2 powi (- 500)" by (intro power_int_increasing; simp)
  from this xk have "2 powi (- 1022) \<le> x * k" by (rule order_trans)
  then have "x * k / 2 \<le> fmul x k" unfolding fmul_def by (rule binary64_ge_half)
  moreover have "0 < x * k" using c xk by (rule less_le_trans)
  ultimately show ?thesis by linarith
qed

lemma distThresholdSq_nonneg: "0 \<le> distThresholdSq p"
  by (simp add: distThresholdSq_def Let_def fmul_def binary64_nonneg)

lemma chroma_out_match:
  assumes key: "hexToRgb (keyColor p) = (num cr, num cg, num cb)"
  shows "0 < distThresholdSq p \<Longrightarrow> chroma_out p cr cg cb = Some (cr, cg, cb, 0)"
    and "\<not> 0 < distThresholdSq p \<Longrightarrow> 0 < smoothRange p \<Longrightarrow>
         0 < fadd (distThresholdSq p) (fmul (smoothRange p) (smoothRange p)) \<Longrightarrow>
         \<exists>r' g' b'. chroma_out p cr cg cb = Some (r', g', b', 0)"
    and "\<not> 0 < distThresholdSq p \<Longrightarrow> \<not> 0 < smoothRange p \<Longrightarrow> chroma_out p cr cg cb = None"
proof -
  show "0 < distThresholdSq p \<Longrightarrow> chroma_out p cr cg cb = Some (cr, cg, cb, 0)"
    by (simp add: chroma_out_def key)
  show "\<not> 0 < distThresholdSq p \<Longrightarrow> \<not> 0 < smoothRange p \<Longrightarrow> chroma_out p cr cg cb = None"
    by (simp add: chroma_out_def key)
  assume a: "\<not> 0 < distThresholdSq p" "0 < smoothRange p"
    "0 < fadd (distThresholdSq p) (fmul (smoothRange p) (smoothRange p))"
  from a(1) distThresholdSq_nonneg [of p] have z: "distThresholdSq p = 0" by simp
  have al: "toUint8Clamp (fmul (fdiv (fsub (fsqrt 0) (fsqrt 0)) (smoothRange p)) 255) = 0"
    by (simp add: fsqrt_def fsub_def fdiv_def fmul_def toUint8Clamp_def)
  show "\<exists>r' g' b'. chroma_out p cr cg cb = Some (r', g', b', 0)"
    using a(2,3) al by (simp add: chroma_out_def key z Let_def)
qed

text \<open>
  Claim C2, as amended. With the stage enabled, a pixel whose R, G, B equal the key
  colour has its alpha set to 0, for every smoothness, when the similarity is at
  least \<open>2 powi (- 500)\<close>, and for every similarity when the smoothness is at
  least \<open>2 powi (- 500)\<close> (positive, and not so small that the squared
  threshold or band underflows to 0). With similarity 0 and smoothness 0 the
  pixel is left as it was: both comparisons of the loop are strict.
\<close>

theorem chroma_key_exact_match:
  assumes en: "enabled params" and w: "0 < width" and h: "0 < height"
    and p: "4 * p + 3 < length data"
    and key: "hexToRgb (keyColor params)
                = (num (data ! (4 * p)), num (data ! (4 * p + 1)), num (data ! (4 * p + 2)))"
  shows "\<exists>out. applyChromaKey data width height params = Inr out
     \<and> length out = length data
     \<and> (2 powi (- 500) \<le> similarity params \<or> 2 powi (- 500) \<le> smoothness params
          \<longrightarrow> out ! (4 * p + 3) = 0)
     \<and> (similarity params = 0 \<and> smoothness params = 0
          \<longrightarrow> out ! (4 * p) = data ! (4 * p) \<and> out ! (4 * p + 1) = data ! (4 * p + 1)
            \<and> out ! (4 * p + 2) = data ! (4 * p + 2) \<and> out ! (4 * p + 3) = data ! (4 * p + 3))"
proof -
  from applyChromaKey_nth [OF en w h, of data] obtain out
    where out: "applyChromaKey data width height params = Inr out" "length out = length data"
      and nth: "\<And>j. j < length data \<Longrightarrow> out ! j = chroma_px params (j div 4) data ! j"
    by blast
  let ?co = "chroma_out params (data ! (p * 4)) (data ! (p * 4 + 1)) (data ! (p * 4 + 2))"
  have key': "hexToRgb (keyColor params)
      = (num (data ! (p * 4)), num (data ! (p * 4 + 1)), num (data ! (p * 4 + 2)))"
    using key by (simp add: mult.commute)
  have px: "\<And>c. c < 4 \<Longrightarrow> out ! (4 * p + c) =
      (case ?co of None \<Rightarrow> data ! (4 * p + c)
       | Some (r', g', b', a') \<Rightarrow> (if c = 3 then a' else if c = 2 then b' else if c = 1 then g' else r'))"
  proof -
    fix c :: nat assume c: "c < 4"
    then have "(4 * p + c) div 4 = p" by simp
    with nth [of "4 * p + c"] p c
    have "out ! (4 * p + c) = chroma_px params p data ! (4 * p + c)" by simp
    also have "\<dots> = (case ?co of None \<Rightarrow> data ! (4 * p + c)
       | Some (r', g', b', a') \<Rightarrow> (if c = 3 then a' else if c = 2 then b' else if c = 1 then g' else r'))"
      using p c by (auto simp: chroma_px_nth mult.commute split: option.splits)
    finally show "out ! (4 * p + c) = (case ?co of None \<Rightarrow> data ! (4 * p + c)
       | Some (r', g', b', a') \<Rightarrow> (if c = 3 then a' else if c = 2 then b' else if c = 1 then g' else r'))" .
  qed
  have A: "out ! (4 * p + 3) = 0"
    if "2 powi (- 500) \<le> similarity params \<or> 2 powi (- 500) \<le> smoothness params"
  proof (cases "0 < distThresholdSq params")
    case True
    then show ?thesis using px [of 3] chroma_out_match(1) [OF key'] by simp
  next
    case False
    have "\<not> 2 powi (- 500) \<le> similarity params"
    proof
      assume "2 powi (- 500) \<le> similarity params"
      then have "2 powi (- 1004) \<le> distThresholdSq params"
        unfolding distThresholdSq_def Let_def by (rule fmul_square_pos) simp
      moreover have "(0::real) < 2 powi (- 1004)" by (rule zero_less_power_int) simp
      ultimately have "0 < distThresholdSq params" by (rule less_le_trans [rotated])
      with False show False by simp
    qed
    with that have sm: "2 powi (- 500) \<le> smoothness params" by simp
    then have s0: "0 < smoothRange params" unfolding smoothRange_def by (rule fmul_pos) simp
    have q: "2 powi (- 1004) \<le> fmul (smoothRange params) (smoothRange params)"
      unfolding smoothRange_def using sm by (rule fmul_square_pos) simp
    have "(2::real) powi (- 1022) \<le> 2 powi (- 1004)" by (intro power_int_increasing; simp)
    with q distThresholdSq_nonneg [of params]
    have "2 powi (- 1022) \<le> distThresholdSq params + fmul (smoothRange params) (smoothRange params)"
      by linarith
    then have hf: "(distThresholdSq params + fmul (smoothRange params) (smoothRange params)) / 2
        \<le> fadd (distThresholdSq params) (fmul (smoothRange params) (smoothRange params))"
      unfolding fadd_def by (rule binary64_ge_half)
    have c0: "(0::real) < 2 powi (- 1004)" by (rule zero_less_power_int) simp
    have "0 < fadd (distThresholdSq params) (fmul (smoothRange params) (smoothRange params))"
      by (rule pos_from_half [OF c0 q distThresholdSq_nonneg hf])
    from chroma_out_match(2) [OF key' False s0 this] show ?thesis using px [of 3] by auto
  qed
  have B: "out ! (4 * p) = data ! (4 * p) \<and> out ! (4 * p + 1) = data ! (4 * p + 1)
            \<and> out ! (4 * p + 2) = data ! (4 * p + 2) \<and> out ! (4 * p + 3) = data ! (4 * p + 3)"
    if "similarity params = 0 \<and> smoothness params = 0"
  proof -
    from that have "\<not> 0 < distThresholdSq params" "\<not> 0 < smoothRange params"
      by (simp_all add: distThresholdSq_def smoothRange_def fmul_def)
    from chroma_out_match(3) [OF key' this] show ?thesis
      using px [of 0] px [of 1] px [of 2] px [of 3] by simp
  qed
  from out A B show ?thesis by blast
qed

theorem chroma_key_exact_match_witness:
  "\<exists>out. applyChromaKey [0, 255, 0, 255] 1 1
           \<lparr>enabled = True, keyColor = ''#00ff00'', similarity = 1 / 2, smoothness = 0, spill = 0\<rparr>
         = Inr out
      \<and> length out = 4 \<and> out ! 3 = 0"
proof -
  let ?P = "\<lparr>enabled = True, keyColor = ''#00ff00'', similarity = 1 / 2, smoothness = 0, spill = 0\<rparr>"
  have k: "hexToRgb (keyColor ?P)
      = (num ([0, 255, 0, 255] ! (4 * 0)), num ([0, 255, 0, 255] ! (4 * 0 + 1)),
         num ([0, 255, 0, 255] ! (4 * 0 + 2)))"
    by (simp add: hexToRgb_default)
  have s: "2 powi (- 500) \<le> similarity ?P" by (simp add: power_int_minus field_simps)
  have e: "enabled ?P" "(0::nat) < 1" "4 * 0 + 3 < length [0, 255, 0, 255 :: byte]" by simp_all
  from chroma_key_exact_match [OF e(1) e(2) e(2) e(3) k] s show ?thesis by auto
qed

text \<open>
  Claim C2 as stated fails: with similarity 0 and smoothness 0 a pixel of exactly the
  key colour keeps its alpha (255 here).
\<close>

lemma hexToRgb_default_num: "hexToRgb ''#00ff00'' = (num 0, num 255, num 0)"
  by (simp add: hexToRgb_default)

theorem chroma_key_exact_match_counterexample:
  "hexToRgb ''#00ff00'' = (num 0, num 255, num 0)
   \<and> applyChromaKey [0, 255, 0, 255] 1 1
        \<lparr>enabled = True, keyColor = ''#00ff00'', similarity = 0, smoothness = 0, spill = 0\<rparr>
      = Inr [0, 255, 0, 255]"
  by (simp add: hexToRgb_default applyChromaKey_def chroma_px_def rd_def
        distThresholdSq_def smoothRange_def fmul_def)
section \<open>renderBlend: hard mix\<close>

lemma hardmix_step_length [simp]: "length (hardmix_step b p i d) = length d"
  by (simp add: hardmix_step_def Let_def)

lemma hardmix_step_nth:
  "j < length d \<Longrightarrow> hardmix_step b p i d ! j =
     (if j = i + 2 then push (threshold p) (mix255 p) (half_sum (rd d (i + 2)) (rd b (i + 2)))
      else if j = i + 1 then push (threshold p) (mix255 p) (half_sum (rd d (i + 1)) (rd b (i + 1)))
      else if j = i then push (threshold p) (mix255 p) (half_sum (rd d i) (rd b i))
      else d ! j)"
  by (simp only: hardmix_step_def Let_def upd3_nth)

lemma hardmix_fold:
  "length (fold (\<lambda>k. hardmix_step b p (4 * k)) [k..<n] d) = length d \<and>
   (\<forall>j<length d. fold (\<lambda>k. hardmix_step b p (4 * k)) [k..<n] d ! j
       = (if 4 * k \<le> j \<and> j < 4 * n then hardmix_step b p (4 * (j div 4)) d ! j else d ! j))"
proof (rule fold_pixels)
  fix i :: nat and d :: "byte list"
  show "length (hardmix_step b p (4 * i) d) = length d" by simp
next
  fix i j :: nat and d :: "byte list"
  assume "j < 4 * i \<or> 4 * i + 4 \<le> j"
  then show "hardmix_step b p (4 * i) d ! j = d ! j" by (auto simp: hardmix_step_def Let_def)
next
  fix i j :: nat and d d' :: "byte list"
  assume l: "length d = length d'"
    and e: "\<And>m. 4 * i \<le> m \<Longrightarrow> m < 4 * i + 4 \<Longrightarrow> m < length d \<Longrightarrow> d ! m = d' ! m"
    and j: "4 * i \<le> j" "j < 4 * i + 4" "j < length d"
  have "rd d (4 * i) = rd d' (4 * i)" "rd d (4 * i + 1) = rd d' (4 * i + 1)"
    "rd d (4 * i + 2) = rd d' (4 * i + 2)"
    using l e by (simp_all add: rd_def)
  then show "hardmix_step b p (4 * i) d ! j = hardmix_step b p (4 * i) d' ! j"
    using l j e [of j] by (simp add: hardmix_step_nth)
qed

lemma hardmix_px:
  assumes "4 * q + 3 < length d" "4 * q + 3 < length b" "ch < 4"
  shows "fold (hardmix_step b p) (pixel_starts (length d)) d ! (4 * q + ch) =
     (if ch < 3
      then push (threshold p) (mix255 p) ((num (d ! (4 * q + ch)) + num (b ! (4 * q + ch))) div 2)
      else d ! (4 * q + ch))"
proof -
  have j: "4 * q + ch < length d" "4 * q + ch < 4 * ((length d + 3) div 4)" "(4 * q + ch) div 4 = q"
    using assms by simp_all
  have "fold (hardmix_step b p) (pixel_starts (length d)) d ! (4 * q + ch)
      = hardmix_step b p (4 * q) d ! (4 * q + ch)"
    using hardmix_fold [of b p 0 "(length d + 3) div 4" d] j
    by (simp add: pixel_starts_fold)
  also have "\<dots> = (if ch < 3
      then push (threshold p) (mix255 p) ((num (d ! (4 * q + ch)) + num (b ! (4 * q + ch))) div 2)
      else d ! (4 * q + ch))"
  proof -
    from assms(3) have "ch = 0 \<or> ch = 1 \<or> ch = 2 \<or> ch = 3" by auto
    then show ?thesis using assms j(1) by (auto simp: hardmix_step_nth rd_def half_sum_def)
  qed
  finally show ?thesis .
qed

lemma hardmix_length: "length (fold (hardmix_step b p) (pixel_starts (length d)) d) = length d"
  using hardmix_fold [of b p 0 "(length d + 3) div 4" d] by (simp add: pixel_starts_fold)

text \<open>
  Claim C4, as amended. In hard-mix mode, for every pixel and each of R, G, B:
  with \<open>avg\<close> the integer average \<open>(A + B) div 2\<close> of the two sources on that
  channel, the output channel is the byte nearest (ties to even) to
  \<open>min 255 (avg + mix / 100 * 255)\<close> when \<open>avg > threshold\<close> and to
  \<open>max 0 (avg - mix / 100 * 255)\<close> otherwise, the sum, difference, quotient and
  product rounded as the code computes them; alpha is unchanged and no draw is made.
\<close>

theorem hard_mix_channels:
  assumes "0 < width" and "0 < height" and "mode params = HardMix"
  shows "\<exists>out. renderBlend data (Some blendData) width height params rnd c = Inr (out, c)
     \<and> length out = length data
     \<and> (\<forall>p ch. 4 * p + 3 < length data \<and> 4 * p + 3 < length blendData \<and> ch < 3 \<longrightarrow>
          (let avg = (num (data ! (4 * p + ch)) + num (blendData ! (4 * p + ch))) div 2;
               m255 = fmul (fdiv (mix params) 100) 255
           in out ! (4 * p + ch)
                = toUint8Clamp (if threshold params < of_int avg
                                then min 255 (fadd (of_int avg) m255)
                                else max 0 (fsub (of_int avg) m255)))
          \<and> out ! (4 * p + 3) = data ! (4 * p + 3))"
proof -
  let ?out = "fold (hardmix_step blendData params) (pixel_starts (length data)) data"
  have "renderBlend data (Some blendData) width height params rnd c = Inr (?out, c)"
    using assms by (simp add: renderBlend_def Let_def)
  moreover have "length ?out = length data" by (rule hardmix_length)
  moreover have "\<forall>p ch. 4 * p + 3 < length data \<and> 4 * p + 3 < length blendData \<and> ch < 3 \<longrightarrow>
          (let avg = (num (data ! (4 * p + ch)) + num (blendData ! (4 * p + ch))) div 2;
               m255 = fmul (fdiv (mix params) 100) 255
           in ?out ! (4 * p + ch)
                = toUint8Clamp (if threshold params < of_int avg
                                then min 255 (fadd (of_int avg) m255)
                                else max 0 (fsub (of_int avg) m255)))
          \<and> ?out ! (4 * p + 3) = data ! (4 * p + 3)"
  proof (intro allI impI)
    fix p ch :: nat assume a: "4 * p + 3 < length data \<and> 4 * p + 3 < length blendData \<and> ch < 3"
    then have "?out ! (4 * p + ch)
        = push (threshold params) (mix255 params)
            ((num (data ! (4 * p + ch)) + num (blendData ! (4 * p + ch))) div 2)"
      using hardmix_px [of p data blendData ch params] by simp
    moreover from a have "?out ! (4 * p + 3) = data ! (4 * p + 3)"
      using hardmix_px [of p data blendData 3 params] by simp
    ultimately show "(let avg = (num (data ! (4 * p + ch)) + num (blendData ! (4 * p + ch))) div 2;
               m255 = fmul (fdiv (mix params) 100) 255
           in ?out ! (4 * p + ch)
                = toUint8Clamp (if threshold params < of_int avg
                                then min 255 (fadd (of_int avg) m255)
                                else max 0 (fsub (of_int avg) m255)))
          \<and> ?out ! (4 * p + 3) = data ! (4 * p + 3)"
      by (simp add: Let_def push_def mix255_def blend_mix_def)
  qed
  ultimately show ?thesis by blast
qed

lemma binary64_1 [simp]: "binary64 1 = 1"
  by (simp add: binary64_def expo_def expo_hi.simps round_even_def Let_def power_int_minus)

lemma binary64_m254: "binary64 (- 254) = - 254"
  by (simp add: binary64_minus binary64_def expo_def expo_hi.simps round_even_def Let_def power_int_minus)

lemma binary64_m255: "binary64 (- 255) = - 255"
  by (simp add: binary64_minus binary64_255)

text \<open>
  Claim C4 as stated fails: with A = 1, B = 2, threshold 1 and mix 100 the exact
  average 3/2 exceeds the threshold and the claim gives 255, while the code halves
  with \<^verbatim>\<open>>> 1\<close>, compares 1 with 1 and writes 0.
\<close>

theorem hard_mix_channels_counterexample:
  "renderBlend [1, 0, 0, 255] (Some [2, 0, 0, 255]) 1 1
       \<lparr>mode = HardMix, mix = 100, threshold = 1, scale = 0\<rparr> (\<lambda>k. 0) 0
     = Inr ([0, 0, 0, 255], 0)
   \<and> (1::real) < (1 + 2) / 2
   \<and> min 255 ((1 + 2) / 2 + 100 * 2.55) = (255::real)"
  by (simp add: renderBlend_def pixel_starts_def hardmix_step_def half_sum_def rd_def push_def
        mix255_def blend_mix_def fmul_def fdiv_def fsub_def fadd_def num_def
        binary64_255 binary64_m254 binary64_m255 toUint8Clamp_def)


lemma binary64_275: "binary64 275 = 275"
  by (simp add: binary64_def expo_def expo_hi.simps round_even_def Let_def power_int_minus)

theorem hard_mix_channels_witness:
  "\<exists>out. renderBlend [10, 0, 0, 255] (Some [30, 0, 0, 255]) 1 1
           \<lparr>mode = HardMix, mix = 100, threshold = 5, scale = 0\<rparr> (\<lambda>k. 0) 0 = Inr (out, 0)
      \<and> length out = 4 \<and> out ! 0 = 255 \<and> out ! 3 = 255"
proof -
  let ?P = "\<lparr>mode = HardMix, mix = 100, threshold = 5, scale = 0\<rparr>"
  have h: "(0::nat) < 1" "mode ?P = HardMix" by simp_all
  from hard_mix_channels [OF h(1) h(1) h(2), of "[10, 0, 0, 255]" "[30, 0, 0, 255]" "\<lambda>k. 0" 0]
  obtain out where o: "renderBlend [10, 0, 0, 255] (Some [30, 0, 0, 255]) 1 1 ?P (\<lambda>k. 0) 0 = Inr (out, 0)"
    "length out = 4"
    and px: "\<And>p ch. 4 * p + 3 < 4 \<and> ch < 3 \<Longrightarrow>
          (let avg = (num ([10, 0, 0, 255] ! (4 * p + ch)) + num ([30, 0, 0, 255 :: byte] ! (4 * p + ch))) div 2;
               m255 = fmul (fdiv (mix ?P) 100) 255
           in out ! (4 * p + ch)
                = toUint8Clamp (if threshold ?P < of_int avg
                                then min 255 (fadd (of_int avg) m255)
                                else max 0 (fsub (of_int avg) m255)))
          \<and> out ! (4 * p + 3) = [10, 0, 0, 255] ! (4 * p + 3)"
    by auto
  from px [of 0 0] have "out ! 0 = 255 \<and> out ! 3 = 255"
    by (simp add: Let_def num_def fmul_def fdiv_def fadd_def binary64_255 binary64_275 toUint8Clamp_def)
  with o show ?thesis by blast
qed
section \<open>renderBlend: displacement\<close>

lemma clamp_coord_range: "0 < b \<Longrightarrow> 0 \<le> clamp_coord v b \<and> clamp_coord v b < b"
  by (simp add: clamp_coord_def)

lemma src_pixel_range:
  assumes "0 < W" "0 < H"
  shows "src_pixel b W H ds n < W * H"
proof -
  define sx where "sx = clamp_coord (int (n mod W) +
      \<lfloor>fmul (fsub (fdiv (of_int (num (b ! (4 * n)))) (255 / 2)) 1) ds\<rfloor>) (int W)"
  define sy where "sy = clamp_coord (int (n div W) +
      \<lfloor>fmul (fsub (fdiv (of_int (num (b ! (4 * n + 1)))) (255 / 2)) 1) ds\<rfloor>) (int H)"
  have "0 \<le> sx \<and> sx < int W" "0 \<le> sy \<and> sy < int H"
    unfolding sx_def sy_def using assms by (simp_all add: clamp_coord_range)
  then have "nat sx < W" "nat sy < H" by linarith+
  then have "nat sy * W + nat sx < W * H" by (rule pixel_index)
  then show ?thesis by (simp add: src_pixel_def Let_def sx_def sy_def)
qed

lemma displacement_src_wf:
  assumes n: "n < W * H" and sz: "4 * (W * H) < 2 ^ 31" and lb: "length b = 4 * (W * H)"
  shows "displacement_src b W H ds (4 * n) = int (4 * src_pixel b W H ds n)"
proof -
  have W: "0 < W" and H: "0 < H" using n by (cases W, auto) (cases H, auto)
  have u: "ushr2 (4 * n) = n" using n sz by (rule ushr2_pixel)
  have x: "js_rem (int n) (int W) = int (n mod W)"
    using W by (simp add: js_rem_nonneg flip: of_nat_mod)
  have y: "(int n - int (n mod W)) div int W = int (n div W)" using W by (rule int_div_pixel)
  have r: "rd b (4 * n) = Some (b ! (4 * n))" "rd b (4 * n + 1) = Some (b ! (4 * n + 1))"
    using n lb by (simp_all add: rd_def)
  define sx where "sx = clamp_coord (int (n mod W) +
      \<lfloor>fmul (fsub (fdiv (of_int (num (b ! (4 * n)))) (255 / 2)) 1) ds\<rfloor>) (int W)"
  define sy where "sy = clamp_coord (int (n div W) +
      \<lfloor>fmul (fsub (fdiv (of_int (num (b ! (4 * n + 1)))) (255 / 2)) 1) ds\<rfloor>) (int H)"
  have rg: "0 \<le> sx" "0 \<le> sy"
    unfolding sx_def sy_def using W H by (simp_all add: clamp_coord_range)
  have sp: "src_pixel b W H ds n = nat sy * W + nat sx"
    by (simp add: src_pixel_def Let_def sx_def sy_def)
  have "shl2 (int (src_pixel b W H ds n)) = int (4 * src_pixel b W H ds n)"
    using src_pixel_range [OF W H] sz by (rule shl2_pixel)
  moreover have "int (src_pixel b W H ds n) = sy * int W + sx" using rg by (simp add: sp)
  ultimately have "shl2 (sy * int W + sx) = int (4 * src_pixel b W H ds n)" by (simp only:)
  then show ?thesis
    unfolding displacement_src_def displacement_shift_def r Let_def u x y
    using W by (simp add: sx_def sy_def)
qed


lemma displacement_step_length [simp]:
  "length (displacement_step buf b W H p rnd c i d) = length d"
  by (simp add: displacement_step_def Let_def)

lemma upd3_cong:
  "length d = length d' \<Longrightarrow> j < length d \<Longrightarrow> d ! j = d' ! j \<Longrightarrow>
   d[i := a, Suc i := b, Suc (Suc i) := c] ! j = d'[i := a, Suc i := b, Suc (Suc i) := c] ! j"
  by (cases "j = i"; cases "j = Suc i"; cases "j = Suc (Suc i)"; simp)

lemma displacement_fold:
  "length (fold (\<lambda>k. displacement_step buf b W H p rnd c (4 * k)) [k..<n] d) = length d \<and>
   (\<forall>j<length d. fold (\<lambda>k. displacement_step buf b W H p rnd c (4 * k)) [k..<n] d ! j
       = (if 4 * k \<le> j \<and> j < 4 * n then displacement_step buf b W H p rnd c (4 * (j div 4)) d ! j
          else d ! j))"
proof (rule fold_pixels)
  fix i :: nat and d :: "byte list"
  show "length (displacement_step buf b W H p rnd c (4 * i) d) = length d" by simp
next
  fix i j :: nat and d :: "byte list"
  assume "j < 4 * i \<or> 4 * i + 4 \<le> j"
  then show "displacement_step buf b W H p rnd c (4 * i) d ! j = d ! j"
    by (auto simp: displacement_step_def Let_def)
next
  fix i j :: nat and d d' :: "byte list"
  assume l: "length d = length d'"
    and e: "\<And>m. 4 * i \<le> m \<Longrightarrow> m < 4 * i + 4 \<Longrightarrow> m < length d \<Longrightarrow> d ! m = d' ! m"
    and j: "4 * i \<le> j" "j < 4 * i + 4" "j < length d"
  show "displacement_step buf b W H p rnd c (4 * i) d ! j
      = displacement_step buf b W H p rnd c (4 * i) d' ! j"
    using l j e [of j] by (auto simp: displacement_step_def Let_def intro!: upd3_cong)
qed

lemma displacement_step_at:
  assumes "displacement_src b W H (displacementScale p) i = int k" "k + 2 < length buf"
    "j < length d"
  shows "displacement_step buf b W H p rnd c i d ! j =
     (if fsub 1 (blend_mix p) < rnd (c + i div 4) \<and> i \<le> j \<and> j < i + 3
      then buf ! (k + (j - i)) else d ! j)"
proof -
  have r: "rdi buf (int k) = Some (buf ! k)" "rdi buf (int k + 1) = Some (buf ! (k + 1))"
    "rdi buf (int k + 2) = Some (buf ! (k + 2))"
    using assms(2) by (simp_all add: rdi_def rd_def nat_add_distrib)
  show ?thesis
    unfolding displacement_step_def Let_def assms(1) r store_def option.case
    using assms(3) by (simp only: upd3_nth split: if_split) auto
qed


lemma displacement_pixel:
  assumes lb: "length b = 4 * (W * H)" and ld: "length d = 4 * (W * H)"
    and sz: "4 * (W * H) < 2 ^ 31" and n: "n < W * H" and ch: "ch < 4"
  shows "fold (displacement_step d b W H p rnd c) (pixel_starts (length d)) d ! (4 * n + ch)
      = (if fsub 1 (blend_mix p) < rnd (c + n) \<and> ch < 3
         then d ! (4 * src_pixel b W H (displacementScale p) n + ch) else d ! (4 * n + ch))"
proof -
  have W: "0 < W" and H: "0 < H" using n by (cases W, auto) (cases H, auto)
  have j: "4 * n + ch < length d" "4 * n + ch < 4 * ((length d + 3) div 4)" "(4 * n + ch) div 4 = n"
    using ld n ch by simp_all
  have k: "4 * src_pixel b W H (displacementScale p) n + 2 < length d"
    using src_pixel_range [OF W H, of b "displacementScale p" n] ld by simp
  have "fold (displacement_step d b W H p rnd c) (pixel_starts (length d)) d ! (4 * n + ch)
      = displacement_step d b W H p rnd c (4 * n) d ! (4 * n + ch)"
    using displacement_fold [of d b W H p rnd c 0 "(length d + 3) div 4" d] j
    by (simp add: pixel_starts_fold)
  also have "\<dots> = (if fsub 1 (blend_mix p) < rnd (c + n) \<and> ch < 3
         then d ! (4 * src_pixel b W H (displacementScale p) n + ch) else d ! (4 * n + ch))"
    using displacement_step_at [OF displacement_src_wf [OF n sz lb] k j(1)] by simp
  finally show ?thesis .
qed

lemma displacement_length:
  "length (fold (displacement_step buf b W H p rnd c) (pixel_starts (length d)) d) = length d"
  using displacement_fold [of buf b W H p rnd c 0 "(length d + 3) div 4" d]
  by (simp add: pixel_starts_fold)

text \<open>
  Claim C3, as amended. In displacement mode on \<open>width \<times> height\<close> buffers, with
  the draw of pixel \<open>(x, y)\<close> being call \<open>c + y * width + x\<close> of the generator:
  the pixel is updated exactly when its draw exceeds \<open>1 - mix / 100\<close>; an updated
  pixel receives the R, G and B channels that A had before the pass at column
  \<open>x + \<lfloor>((B.red / 127.5) - 1) * (scale * 2)\<rfloor>\<close> and row
  \<open>y + \<lfloor>((B.green / 127.5) - 1) * (scale * 2)\<rfloor>\<close>, each clamped to the buffer,
  where every quotient, difference and product, the bar \<open>1 - mix / 100\<close> included,
  is rounded to double precision as the code computes it (\<open>fdiv\<close>, \<open>fsub\<close>,
  \<open>fmul\<close>), so that a shift can be one below the floor of the exact
  expression; its alpha channel is not copied and stays as it was; every other
  pixel is unchanged.
\<close>

theorem displacement_update:
  assumes "mode params = Displacement"
    and "length data = 4 * (width * height)" and "length blendData = 4 * (width * height)"
    and "4 * (width * height) < 2 ^ 31" and "x < width" and "y < height"
  shows "\<exists>out. renderBlend data (Some blendData) width height params rnd c
                 = Inr (out, c + width * height)
     \<and> length out = length data
     \<and> (let i = 4 * (y * width + x);
            shiftX = \<lfloor>fmul (fsub (fdiv (of_int (num (blendData ! i))) (255 / 2)) 1)
                       (fmul (scale params) 2)\<rfloor>;
            shiftY = \<lfloor>fmul (fsub (fdiv (of_int (num (blendData ! (i + 1)))) (255 / 2)) 1)
                       (fmul (scale params) 2)\<rfloor>;
            srcX = clamp_coord (int x + shiftX) (int width);
            srcY = clamp_coord (int y + shiftY) (int height);
            s = 4 * (nat srcY * width + nat srcX)
        in 0 \<le> srcX \<and> srcX < int width \<and> 0 \<le> srcY \<and> srcY < int height
         \<and> (if fsub 1 (fdiv (mix params) 100) < rnd (c + (y * width + x))
            then out ! i = data ! s \<and> out ! (i + 1) = data ! (s + 1) \<and> out ! (i + 2) = data ! (s + 2)
            else out ! i = data ! i \<and> out ! (i + 1) = data ! (i + 1) \<and> out ! (i + 2) = data ! (i + 2))
         \<and> out ! (i + 3) = data ! (i + 3))"
proof -
  let ?out = "fold (displacement_step data blendData width height params rnd c)
                (pixel_starts (length data)) data"
  let ?n = "y * width + x"
  have W: "0 < width" and H: "0 < height" using assms(5,6) by simp_all
  have n: "?n < width * height" using assms(5,6) by (rule pixel_index)
  have dm: "?n div width = y" "?n mod width = x" using assms(5) by simp_all
  have cnt: "length (pixel_starts (length data)) = width * height"
    by (simp add: pixel_starts_def assms(2))
  have r: "renderBlend data (Some blendData) width height params rnd c
      = Inr (?out, c + width * height)"
    using W H assms(1) by (simp add: renderBlend_def Let_def cnt)
  have px: "\<And>ch. ch < 4 \<Longrightarrow> ?out ! (4 * ?n + ch)
      = (if fsub 1 (blend_mix params) < rnd (c + ?n) \<and> ch < 3
         then data ! (4 * src_pixel blendData width height (displacementScale params) ?n + ch)
         else data ! (4 * ?n + ch))"
    using assms(2,3,4) n by (intro displacement_pixel) simp_all
  have sp: "src_pixel blendData width height (displacementScale params) ?n
      = nat (clamp_coord (int y + \<lfloor>fmul (fsub (fdiv (of_int (num (blendData ! (4 * ?n + 1)))) (255 / 2)) 1)
                       (fmul (scale params) 2)\<rfloor>) (int height)) * width
        + nat (clamp_coord (int x + \<lfloor>fmul (fsub (fdiv (of_int (num (blendData ! (4 * ?n)))) (255 / 2)) 1)
                       (fmul (scale params) 2)\<rfloor>) (int width))"
    unfolding src_pixel_def Let_def dm displacementScale_def ..
  show ?thesis
    using r displacement_length [of data blendData width height params rnd c data]
      px [of 0] px [of 1] px [of 2] px [of 3]
      clamp_coord_range [OF W [folded of_nat_0_less_iff [where 'a = int]]]
      clamp_coord_range [OF H [folded of_nat_0_less_iff [where 'a = int]]]
    by (simp add: Let_def sp blend_mix_def)
qed


lemma binary64_2: "binary64 2 = 2"
  by (simp add: binary64_def expo_def expo_hi.simps round_even_def Let_def power_int_minus)

lemma binary64_m1: "binary64 (- 1) = - 1"
  by (simp add: binary64_minus)

lemma binary64_m2: "binary64 (- 2) = - 2"
  by (simp add: binary64_minus binary64_2)

lemma upt_0_2: "[0..<2] = [0, 1]"
  by (simp add: upt_rec)

lemma upt_0_3: "[0..<3] = [0, 1, 2]"
  by (simp add: upt_rec)

lemma binary64_10: "binary64 10 = 10"
  by (simp add: binary64_def expo_def expo_hi.simps round_even_def Let_def power_int_minus)

lemma expo_6_5: "expo (6 / 5) = 0"
  by (simp add: expo_def expo_hi.simps)

lemma binary64_6_5: "binary64 (6 / 5) = 5404319552844595 / 4503599627370496"
  by (simp add: binary64_def expo_6_5 round_even_def Let_def power_int_minus)

lemma expo_1_5: "expo (900719925474099 / 4503599627370496) = - 3"
  by (simp add: expo_def expo_lo.simps)

lemma binary64_1_5:
  "binary64 (900719925474099 / 4503599627370496) = 900719925474099 / 4503599627370496"
  by (simp add: binary64_def expo_1_5 round_even_def Let_def power_int_minus)

lemma expo_below_2: "expo (4503599627370495 / 2251799813685248) = 0"
  by (simp add: expo_def expo_hi.simps)

lemma binary64_below_2:
  "binary64 (4503599627370495 / 2251799813685248) = 4503599627370495 / 2251799813685248"
  by (simp add: binary64_def expo_below_2 round_even_def Let_def power_int_minus)

text \<open>
  \<^verbatim>\<open>153 / 127.5\<close> rounds below \<open>1.2\<close>, to \<open>5404319552844595 / 2^52\<close>; the difference
  with 1 and its product with 10 are exact, \<open>2 - 2^-51\<close>, and the floor is 1.
\<close>

lemma displacement_shift_153: "displacement_shift 10 (Some 153) = Some 1"
proof -
  have a: "fdiv (of_int (num (153 :: byte))) (255 / 2) = 5404319552844595 / 4503599627370496"
    using binary64_6_5 by (simp add: fdiv_def num_def)
  have b: "fsub (5404319552844595 / 4503599627370496) 1 = 900719925474099 / 4503599627370496"
    using binary64_1_5 by (simp add: fsub_def)
  have c: "fmul (900719925474099 / 4503599627370496) 10 = 4503599627370495 / 2251799813685248"
    using binary64_below_2 by (simp add: fmul_def)
  show ?thesis unfolding displacement_shift_def option.case a b c by simp
qed

lemma displacement_shift_255: "displacement_shift 10 (Some 255) = Some 10"
  by (simp add: displacement_shift_def num_def fdiv_def fsub_def fmul_def binary64_2 binary64_10)

text \<open>
  Claim C3 as stated fails on the alpha channel: on a \<open>2 \<times> 1\<close> buffer pixel
  \<open>(0, 0)\<close> is updated from the snapshot pixel \<open>(1, 0) = (50, 60, 70, 80)\<close> and
  becomes \<open>(50, 60, 70, 40)\<close>; pixel \<open>(1, 0)\<close> receives the colour pixel \<open>(0, 0)\<close>
  had before the pass. It fails on the source column too when the shift is read
  in exact arithmetic: on a \<open>3 \<times> 1\<close> buffer with \<open>scale = 5\<close> and \<open>B.red = 153\<close> at
  pixel \<open>(0, 0)\<close>, the exact shift \<open>\<lfloor>(153 / 127.5 - 1) * 10\<rfloor>\<close> is 2 and names
  column 2, of colour \<open>(90, 100, 110)\<close>, while the code computes the shift 1 and
  copies the colour \<open>(50, 60, 70)\<close> of column 1.
\<close>

theorem displacement_update_counterexample:
  "renderBlend [10, 20, 30, 40, 50, 60, 70, 80] (Some [255, 255, 0, 255, 0, 0, 0, 255]) 2 1
       \<lparr>mode = Displacement, mix = 100, threshold = 0, scale = 1\<rparr> (\<lambda>k. 1 / 2) 0
     = Inr ([50, 60, 70, 40, 10, 20, 30, 80], 2)
   \<and> take 4 [50, 60, 70, 40, 10, 20, 30, 80 :: byte]
       \<noteq> take 4 (drop 4 [10, 20, 30, 40, 50, 60, 70, 80])
   \<and> renderBlend [10, 20, 30, 40, 50, 60, 70, 80, 90, 100, 110, 120]
       (Some [153, 255, 0, 255, 255, 255, 0, 255, 255, 255, 0, 255]) 3 1
       \<lparr>mode = Displacement, mix = 100, threshold = 0, scale = 5\<rparr> (\<lambda>k. 1 / 2) 0
     = Inr ([50, 60, 70, 40, 90, 100, 110, 80, 90, 100, 110, 120], 3)
   \<and> \<lfloor>(153 / (255 / 2) - 1) * (5 * 2 :: real)\<rfloor> = (2 :: int)"
proof -
  have alpha: "renderBlend [10, 20, 30, 40, 50, 60, 70, 80]
       (Some [255, 255, 0, 255, 0, 0, 0, 255]) 2 1
       \<lparr>mode = Displacement, mix = 100, threshold = 0, scale = 1\<rparr> (\<lambda>k. 1 / 2) 0
     = Inr ([50, 60, 70, 40, 10, 20, 30, 80], 2)"
    by (simp add: renderBlend_def pixel_starts_def upt_0_2 displacement_step_def
          displacement_src_def displacement_shift_def displacementScale_def blend_mix_def
          rd_def rdi_def store_def num_def fdiv_def fsub_def fmul_def
          binary64_2 binary64_m1 binary64_m2
          ushr2_def js_rem_def clamp_coord_def shl2_def toInt32_def)
  have column: "renderBlend [10, 20, 30, 40, 50, 60, 70, 80, 90, 100, 110, 120]
       (Some [153, 255, 0, 255, 255, 255, 0, 255, 255, 255, 0, 255]) 3 1
       \<lparr>mode = Displacement, mix = 100, threshold = 0, scale = 5\<rparr> (\<lambda>k. 1 / 2) 0
     = Inr ([50, 60, 70, 40, 90, 100, 110, 80, 90, 100, 110, 120], 3)"
    by (simp add: renderBlend_def pixel_starts_def upt_0_3 displacement_step_def
          displacement_src_def displacement_shift_153 displacement_shift_255
          displacementScale_def blend_mix_def rd_def rdi_def store_def
          fdiv_def fsub_def fmul_def binary64_10
          ushr2_def js_rem_def clamp_coord_def shl2_def toInt32_def)
  show ?thesis unfolding alpha column by simp
qed

theorem displacement_update_witness:
  "\<exists>out. renderBlend [10, 20, 30, 40, 50, 60, 70, 80] (Some [255, 255, 0, 255, 0, 0, 0, 255]) 2 1
           \<lparr>mode = Displacement, mix = 100, threshold = 0, scale = 1\<rparr> (\<lambda>k. 1 / 2) 0
         = Inr (out, 2)
      \<and> length out = 8 \<and> out ! 0 = 50 \<and> out ! 1 = 60 \<and> out ! 2 = 70 \<and> out ! 3 = 40"
proof -
  let ?P = "\<lparr>mode = Displacement, mix = 100, threshold = 0, scale = 1\<rparr>"
  let ?D = "[10, 20, 30, 40, 50, 60, 70, 80] :: byte list"
  let ?B = "[255, 255, 0, 255, 0, 0, 0, 255] :: byte list"
  have h: "mode ?P = Displacement" "length ?D = 4 * (2 * 1)" "length ?B = 4 * (2 * 1)"
    "4 * (2 * 1) < (2::nat) ^ 31" "(0::nat) < 2" "(0::nat) < 1"
    by simp_all
  from displacement_update [OF h, of "\<lambda>k. 1 / 2" 0]
  obtain out where o: "renderBlend ?D (Some ?B) 2 1 ?P (\<lambda>k. 1 / 2) 0 = Inr (out, 0 + 2 * 1)"
      "length out = length ?D"
    and px: "out ! (4 * (0 * 2 + 0)) = 50 \<and> out ! (4 * (0 * 2 + 0) + 1) = 60
      \<and> out ! (4 * (0 * 2 + 0) + 2) = 70 \<and> out ! (4 * (0 * 2 + 0) + 3) = 40"
    by (auto simp: Let_def num_def fdiv_def fsub_def fmul_def binary64_2 clamp_coord_def)
  from px have "out ! 0 = 50 \<and> out ! 1 = 60 \<and> out ! 2 = 70 \<and> out ! 3 = 40"
    by (simp add: numeral_2_eq_2)
  with o show ?thesis by simp
qed
section \<open>applyBlockShift\<close>

lemma efold_inv:
  assumes step: "\<And>x s. I s \<Longrightarrow> \<exists>s'. f x s = Inr s' \<and> I s'" and "I s"
  shows "\<exists>s'. efold f xs s = Inr s' \<and> I s'"
  using \<open>I s\<close>
proof (induction xs arbitrary: s)
  case Nil
  then show ?case by simp
next
  case (Cons x xs)
  from step [OF Cons.prems, of x] obtain s1 where s1: "f x s = Inr s1" "I s1" by blast
  from Cons.IH [OF s1(2)] show ?case by (simp add: s1(1))
qed

lemma subarray_length:
  assumes "0 \<le> s" "0 \<le> len" "s + len < int (length d)"
  shows "length (subarray d s (s + len)) = nat len"
proof -
  have "rel_index (length d) s = nat s" "rel_index (length d) (s + len) = nat (s + len)"
    using assms by (simp_all add: rel_index_def)
  then show ?thesis using assms by (simp add: subarray_def Let_def)
qed

lemma typed_set_fits:
  assumes "0 \<le> off" "off + int (length src) \<le> int (length d)"
  shows "\<exists>d'. typed_set d src off = Inr d' \<and> length d' = length d"
  using assms by (simp add: typed_set_def)

lemma copy_row_ok:
  assumes "0 \<le> blockW"
  shows "\<exists>d'. copy_row W (blockW, blockH, srcX, srcY, destX, destY) y d = Inr d'
           \<and> length d' = length d"
proof -
  define srcStart where "srcStart = ((srcY + int y) * int W + srcX) * 4"
  define destStart where "destStart = ((destY + int y) * int W + destX) * 4"
  show ?thesis
  proof (cases "srcStart + blockW * 4 < int (length d) \<and> destStart + blockW * 4 < int (length d)
                \<and> 0 \<le> srcStart \<and> 0 \<le> destStart")
    case True
    then have "length (subarray d srcStart (srcStart + blockW * 4)) = nat (blockW * 4)"
      using assms by (intro subarray_length) simp_all
    with True assms
    have "\<exists>d'. typed_set d (subarray d srcStart (srcStart + blockW * 4)) destStart = Inr d'
           \<and> length d' = length d"
      by (intro typed_set_fits) simp_all
    with True show ?thesis by (simp add: copy_row_def Let_def srcStart_def destStart_def)
  next
    case False
    then show ?thesis by (auto simp: copy_row_def Let_def srcStart_def destStart_def)
  qed
qed

lemma blockW_range:
  assumes "is_draw u"
  shows "1 \<le> randomInt u 10 (int W div 4) \<and> randomInt u 10 (int W div 4) \<le> max 10 (int W div 4)"
proof (cases "10 \<le> int W div 4")
  case True
  from randomInt_proper [OF assms True] show ?thesis by simp
next
  case False
  then have "int W div 4 < 10" by simp
  moreover have "0 \<le> int W div 4" by simp
  ultimately show ?thesis using randomInt_reversed [OF assms, of "int W div 4" 10] by linarith
qed

lemma shift_block_ok:
  assumes "is_draw (rnd c)"
  shows "\<exists>d'. shift_block rnd W H b (d, c) = Inr (d', c + 6) \<and> length d' = length d"
proof -
  obtain bw bh sx sy dx dy where g: "block_geometry rnd W H c = (bw, bh, sx, sy, dx, dy)"
    by (metis prod_cases6)
  then have "bw = randomInt (rnd c) 10 (int W div 4)" by (simp add: block_geometry_def Let_def)
  with blockW_range [OF assms, of W] have bw: "0 \<le> bw" by simp
  have "\<exists>d'. efold (copy_row W (bw, bh, sx, sy, dx, dy)) [0..<nat bh] d = Inr d'
      \<and> length d' = length d"
  proof (rule efold_inv [where I = "\<lambda>s. length s = length d"])
    fix x and s :: "byte list"
    assume "length s = length d"
    with copy_row_ok [OF bw, of W bh sx sy dx dy x s]
    show "\<exists>s'. copy_row W (bw, bh, sx, sy, dx, dy) x s = Inr s' \<and> length s' = length d"
      by simp
  qed simp
  then show ?thesis by (auto simp: shift_block_def g)
qed

lemma applyBlockShift_ok:
  assumes "\<forall>k. is_draw (rnd k)"
  shows "\<exists>out c'. applyBlockShift d W H intensity sd rnd c = Inr (out, c')
           \<and> length out = length d"
proof (cases "intensity = 0")
  case True
  then show ?thesis by (simp add: applyBlockShift_def)
next
  case False
  have "\<exists>s'. efold (shift_block rnd W H) [0..<nat (numBlocks intensity)] (d, c) = Inr s'
      \<and> length (fst s') = length d"
  proof (rule efold_inv [where I = "\<lambda>s. length (fst s) = length d"])
    fix x and s :: "byte list \<times> nat"
    assume "length (fst s) = length d"
    with shift_block_ok [of rnd "snd s" W H x "fst s"] assms
    show "\<exists>s'. shift_block rnd W H x s = Inr s' \<and> length (fst s') = length d"
      by auto
  qed simp
  with False show ?thesis by (auto simp: applyBlockShift_def)
qed

lemma block_geometry_in_bounds:
  assumes d: "\<forall>k. is_draw (rnd k)" and W: "10 \<le> W" and H: "50 \<le> H"
    and g: "block_geometry rnd W H c = (bw, bh, sx, sy, dx, dy)"
  shows "1 \<le> bw \<and> 2 \<le> bh \<and> 0 \<le> dx \<and> dx + bw \<le> int W \<and> 0 \<le> dy \<and> dy + bh \<le> int H"
proof -
  from g have bw: "bw = randomInt (rnd c) 10 (int W div 4)"
    and bh: "bh = randomInt (rnd (c + 1)) 2 50"
    and dx: "dx = min (int W - bw) (max 0 (sx + randomInt (rnd (c + 4)) (- 50) 50))"
    and dy: "dy = min (int H - bh) (max 0 (sy + randomInt (rnd (c + 5)) (- 10) 10))"
    by (auto simp: block_geometry_def Let_def)
  have "max 10 (int W div 4) \<le> int W" using W by simp
  with blockW_range [of "rnd c" W] d have 1: "1 \<le> bw" "bw \<le> int W" by (auto simp: bw)
  from randomInt_proper [of "rnd (c + 1)" 2 50] d H have 2: "2 \<le> bh" "bh \<le> int H"
    by (auto simp: bh)
  from 1 2 show ?thesis by (auto simp: dx dy)
qed


text \<open>
  Claim C5, as amended. For every buffer, all dimensions and every sequence of
  draws, the block-displacement pass never makes \<^verbatim>\<open>data.set\<close> raise
  \<^verbatim>\<open>RangeError\<close> and returns a buffer of the same length: every row copy passes
  the bounds check first, so every write lies inside the byte array. The
  destination rectangle itself is clamped inside \<open>[0, W) \<times> [0, H)\<close> whenever
  \<open>W \<ge> 10\<close> and \<open>H \<ge> 50\<close>; on a smaller buffer the block can be wider or taller
  than the buffer and the clamp then gives a negative origin.
\<close>

theorem block_shift_in_bounds:
  assumes "\<forall>k. is_draw (rnd k)"
  shows "(\<exists>out c'. applyBlockShift data width height intensity sd rnd c = Inr (out, c')
            \<and> length out = length data)
    \<and> (10 \<le> width \<and> 50 \<le> height \<longrightarrow>
         (\<forall>k. case block_geometry rnd width height k of
                 (blockW, blockH, srcX, srcY, destX, destY) \<Rightarrow>
                   0 \<le> destX \<and> destX + blockW \<le> int width
                   \<and> 0 \<le> destY \<and> destY + blockH \<le> int height))"
proof (intro conjI impI allI)
  show "\<exists>out c'. applyBlockShift data width height intensity sd rnd c = Inr (out, c')
            \<and> length out = length data"
    using assms by (rule applyBlockShift_ok)
next
  fix k assume wh: "10 \<le> width \<and> 50 \<le> height"
  obtain bw bh sx sy dx dy where g: "block_geometry rnd width height k = (bw, bh, sx, sy, dx, dy)"
    by (metis prod_cases6)
  from block_geometry_in_bounds [OF assms _ _ g] wh
  show "case block_geometry rnd width height k of
          (blockW, blockH, srcX, srcY, destX, destY) \<Rightarrow>
            0 \<le> destX \<and> destX + blockW \<le> int width
            \<and> 0 \<le> destY \<and> destY + blockH \<le> int height"
    by (simp add: g)
qed

theorem block_shift_in_bounds_witness:
  "(\<exists>out c'. applyBlockShift (replicate 8000 0) 40 50 10 0 (\<lambda>k. 0) 0 = Inr (out, c')
            \<and> length out = 8000)
   \<and> (case block_geometry (\<lambda>k. 0) 40 50 0 of
         (blockW, blockH, srcX, srcY, destX, destY) \<Rightarrow>
           0 \<le> destX \<and> destX + blockW \<le> 40 \<and> 0 \<le> destY \<and> destY + blockH \<le> 50)"
proof -
  have h: "\<forall>k::nat. is_draw ((\<lambda>k. 0) k)" by (simp add: is_draw_def)
  have w: "(10::nat) \<le> 40 \<and> (50::nat) \<le> 50" by simp
  from block_shift_in_bounds [OF h, of "replicate 8000 0" 40 50 10 0 0] w
  show ?thesis by (auto dest!: spec [of _ 0])
qed

text \<open>
  Claim C5 as stated fails on the rectangle: on a \<open>4 \<times> 4\<close> buffer with all draws 0
  the block is 10 wide and the destination column is clamped to \<open>- 6\<close>.
\<close>

theorem block_shift_in_bounds_counterexample:
  "block_geometry (\<lambda>k. 0) 4 4 0 = (10, 2, 0, 0, - 6, 0)"
  by (simp add: block_geometry_def randomInt_def fmul_def)

section \<open>applyPixelSort\<close>

lemma insort_key_map_commute:
  assumes "g x = h (f x)" "\<forall>y\<in>set ys. g y = h (f y)"
  shows "map f (insort_key g x ys) = insort_key h (f x) (map f ys)"
  using assms by (induction ys) simp_all

lemma sort_key_map_commute:
  assumes "\<forall>x\<in>set xs. g x = h (f x)"
  shows "map f (sort_key g xs) = sort_key h (map f xs)"
  using assms
proof (induction xs)
  case Nil
  then show ?case by simp
next
  case (Cons x xs)
  then have "map f (insort_key g x (sort_key g xs)) = insort_key h (f x) (map f (sort_key g xs))"
    by (intro insort_key_map_commute) simp_all
  with Cons show ?case by simp
qed

lemma concat_quads_nth:
  assumes "k < length xs" "ch < 4" "\<forall>x\<in>set xs. length (f x) = 4"
  shows "concat (map f xs) ! (4 * k + ch) = f (xs ! k) ! ch"
  using assms
proof (induction xs arbitrary: k)
  case Nil
  then show ?case by simp
next
  case (Cons x xs)
  show ?case
  proof (cases k)
    case 0
    with Cons.prems show ?thesis by (simp add: nth_append)
  next
    case (Suc k')
    with Cons.prems have "concat (map f xs) ! (4 * k' + ch) = f (xs ! k') ! ch"
      by (intro Cons.IH) simp_all
    with Suc Cons.prems show ?thesis by (simp add: nth_append)
  qed
qed

lemma concat_quads_length:
  "\<forall>x\<in>set xs. length (f x) = 4 \<Longrightarrow> length (concat (map f xs)) = 4 * length xs"
  by (induction xs) simp_all

lemma map_nth_upt: "map (\<lambda>k. f (xs ! k)) [0..<length xs] = map f xs"
  by (rule nth_equalityI) simp_all

lemma mset_concat_pointwise:
  assumes "length xs = length ys" "\<forall>i<length xs. mset (xs ! i) = mset (ys ! i)"
  shows "mset (concat xs) = mset (concat ys)"
  using assms
proof (induction xs ys rule: list_induct2)
  case Nil
  then show ?case by simp
next
  case (Cons x xs y ys)
  from Cons.prems have "mset x = mset y" by (auto dest: spec [of _ 0])
  moreover from Cons.prems have "\<forall>i<length xs. mset (xs ! i) = mset (ys ! i)" by fastforce
  ultimately show ?case using Cons.IH by simp
qed

lemma spec_pixel_sort_rows:
  "length (spec_pixel_sort ys rows) = length rows \<and>
   (\<forall>y<length rows. mset (spec_pixel_sort ys rows ! y) = mset (rows ! y)) \<and>
   (\<forall>y<length rows. y \<notin> set ys \<longrightarrow> spec_pixel_sort ys rows ! y = rows ! y)"
proof (induction ys arbitrary: rows)
  case Nil
  then show ?case by (simp add: spec_pixel_sort_def)
next
  case (Cons y ys)
  let ?r = "rows[y := sort_key pixel_brightness (rows ! y)]"
  have s: "spec_pixel_sort (y # ys) rows = spec_pixel_sort ys ?r"
    by (simp add: spec_pixel_sort_def)
  have m: "\<forall>i<length rows. mset (?r ! i) = mset (rows ! i)"
    by (cases "y < length rows") (auto simp: nth_list_update)
  from Cons.IH [of ?r] m show ?case
    unfolding s by (cases "y < length rows") (auto simp: nth_list_update)
qed


lemma splice_nth:
  assumes "a + length t \<le> length d" "j < length d"
  shows "(take a d @ t @ drop (a + length t) d) ! j
      = (if j < a then d ! j else if j < a + length t then t ! (j - a) else d ! j)"
proof -
  have la: "length (take a d) = a" using assms(1) by simp
  consider "j < a" | "a \<le> j" "j < a + length t" | "a + length t \<le> j" by linarith
  then show ?thesis
  proof cases
    case 1
    then show ?thesis by (simp add: nth_append la del: length_take)
  next
    case 2
    then show ?thesis by (auto simp: nth_append la simp del: length_take)
  next
    case 3
    then have "(take a d @ t @ drop (a + length t) d) ! j
        = drop (a + length t) d ! (j - a - length t)"
      by (auto simp: nth_append la simp del: length_take)
    also have "\<dots> = d ! j" using 3 assms by simp
    finally show ?thesis using 3 by simp
  qed
qed

lemma rows_of_length [simp]: "length (rows_of W H d) = H"
  by (simp add: rows_of_def)

lemma rows_of_nth: "y < H \<Longrightarrow> rows_of W H d ! y = map (\<lambda>k. pixel_at d (y * W + k)) [0..<W]"
  by (simp add: rows_of_def)

lemma row_bounds:
  fixes y k W H ch :: nat
  assumes "y < H" "k < W" "ch < 4"
  shows "4 * (y * W + k) + ch < 4 * (W * H)"
proof -
  have "y * W + k < W * H" using assms(2,1) by (rule pixel_index)
  then show ?thesis using assms(3) by simp
qed

lemma row_end:
  fixes y W H :: nat
  assumes "y < H"
  shows "4 * (y * W) + 4 * W \<le> 4 * (W * H)"
proof -
  have "(y + 1) * W \<le> H * W" using assms by (intro mult_right_mono) simp_all
  then show ?thesis by (simp add: mult.commute)
qed

lemma replace_row:
  assumes len: "length d = 4 * (W * H)" and y: "y < H"
    and row: "length row = W" "\<forall>px\<in>set row. length px = 4"
  shows "rows_of W H (take (4 * (y * W)) d @ concat row @ drop (4 * (y * W) + 4 * W) d)
      = (rows_of W H d)[y := row]"
proof (rule nth_equalityI)
  let ?d = "take (4 * (y * W)) d @ concat row @ drop (4 * (y * W) + 4 * W) d"
  show "length (rows_of W H ?d) = length ((rows_of W H d)[y := row])" by simp
  fix y' assume "y' < length (rows_of W H ?d)"
  then have y': "y' < H" by simp
  have lt: "length (concat row) = 4 * W"
    using concat_quads_length [of row "\<lambda>x. x"] row by simp
  have fit: "4 * (y * W) + length (concat row) \<le> length d"
    using row_end [OF y, of W] len lt by simp
  have px: "pixel_at ?d (y' * W + k) = (if y' = y then row ! k else pixel_at d (y' * W + k))"
    if k: "k < W" for k
  proof -
    have j: "\<And>ch. ch < 4 \<Longrightarrow> 4 * (y' * W + k) + ch < length d"
      using row_bounds [OF y' k] len by simp
    have n: "\<And>ch. ch < 4 \<Longrightarrow> ?d ! (4 * (y' * W + k) + ch)
        = (if y' = y then row ! k ! ch else d ! (4 * (y' * W + k) + ch))"
    proof -
      fix ch :: nat assume ch: "ch < 4"
      consider "y' < y" | "y' = y" | "y < y'" by linarith
      then show "?d ! (4 * (y' * W + k) + ch)
        = (if y' = y then row ! k ! ch else d ! (4 * (y' * W + k) + ch))"
      proof cases
        case 1
        then have "(y' + 1) * W \<le> y * W" by (intro mult_right_mono) simp_all
        then have "4 * (y' * W + k) + ch < 4 * (y * W)" using k ch by simp
        with 1 show ?thesis using splice_nth [OF fit j [OF ch], unfolded lt] by simp
      next
        case 2
        have "concat row ! (4 * k + ch) = row ! k ! ch"
          using concat_quads_nth [of k row ch "\<lambda>x. x"] k ch row by simp
        moreover have "4 * (y * W + k) + ch - 4 * (y * W) = 4 * k + ch" by simp
        moreover have "4 * (y * W + k) + ch < 4 * (y * W) + 4 * W"
          "\<not> 4 * (y * W + k) + ch < 4 * (y * W)"
          using k ch by simp_all
        ultimately show ?thesis using 2 splice_nth [OF fit j [OF ch], unfolded lt]
          by (simp only: if_True if_False) simp
      next
        case 3
        then have "(y + 1) * W \<le> y' * W" by (intro mult_right_mono) simp_all
        then have "\<not> 4 * (y' * W + k) + ch < 4 * (y * W) + 4 * W" by simp
        moreover from this have "\<not> 4 * (y' * W + k) + ch < 4 * (y * W)" by simp
        ultimately show ?thesis using 3 splice_nth [OF fit j [OF ch], unfolded lt]
          by (simp only: if_True if_False) simp
      qed
    qed
    have r4: "length (row ! k) = 4" using row k by simp
    then obtain a b c e where rk: "row ! k = [a, b, c, e]"
      by (auto simp: length_Suc_conv eval_nat_numeral)
    show ?thesis
      using n [of 0] n [of 1] n [of 2] n [of 3]
      by (auto simp: pixel_at_def rk)
  qed
  have "rows_of W H ?d ! y' = map (\<lambda>k. pixel_at ?d (y' * W + k)) [0..<W]"
    using y' by (rule rows_of_nth)
  also have "\<dots> = (if y' = y then row else map (\<lambda>k. pixel_at d (y' * W + k)) [0..<W])"
  proof (cases "y' = y")
    case True
    have "map (\<lambda>k. pixel_at ?d (y' * W + k)) [0..<W] = map (\<lambda>k. row ! k) [0..<W]"
      using px True by (intro map_cong) simp_all
    also have "\<dots> = row" using row(1) map_nth [of row] by simp
    finally show ?thesis using True by simp
  next
    case False
    then show ?thesis using px by (simp cong: map_cong)
  qed
  also have "\<dots> = (rows_of W H d)[y := row] ! y'"
    using y' y by (simp add: nth_list_update rows_of_nth)
  finally show "rows_of W H ?d ! y' = (rows_of W H d)[y := row] ! y'" .
qed


lemma rdi_int: "rdi d (int n) = rd d n"
  by (simp add: rdi_def)

lemma rdi_in_row:
  assumes len: "length d = 4 * (W * H)" and y: "y < H" and k: "k < W" and ch: "ch < 4"
  shows "rdi d (int (4 * (y * W)) + int k * 4 + int ch) = Some (d ! (4 * (y * W + k) + ch))"
proof -
  have "int (4 * (y * W)) + int k * 4 + int ch = int (4 * (y * W + k) + ch)" by simp
  moreover have "4 * (y * W + k) + ch < length d" using row_bounds [OF y k ch] len by simp
  ultimately show ?thesis by (simp only: rdi_int rd_def if_True)
qed

lemma row_quad:
  assumes len: "length d = 4 * (W * H)" and y: "y < H" and k: "k < W"
  shows "[store (rdi d (int (4 * (y * W)) + int k * 4)),
          store (rdi d (int (4 * (y * W)) + int k * 4 + 1)),
          store (rdi d (int (4 * (y * W)) + int k * 4 + 2)),
          store (rdi d (int (4 * (y * W)) + int k * 4 + 3))] = pixel_at d (y * W + k)"
  using rdi_in_row [OF len y k, of 0] rdi_in_row [OF len y k, of 1]
    rdi_in_row [OF len y k, of 2] rdi_in_row [OF len y k, of 3]
  by (simp add: pixel_at_def store_def)

lemma row_brightness_pixel:
  assumes len: "length d = 4 * (W * H)" and y: "y < H" and k: "k < W"
  shows "row_brightness d (int (4 * (y * W))) k = pixel_brightness (pixel_at d (y * W + k))"
  using rdi_in_row [OF len y k, of 0] rdi_in_row [OF len y k, of 1]
    rdi_in_row [OF len y k, of 2]
  by (simp add: row_brightness_def Let_def pixel_brightness_def pixel_at_def)

lemma sort_row_step:
  assumes len: "length d = 4 * (W * H)" and u: "is_draw (rnd c)" and H: "0 < H"
  shows "nat (randomInt (rnd c) 0 (int H - 1)) < H \<and>
    (\<exists>d'. sort_row rnd W H r (d, c) = Inr (d', c + 1) \<and> length d' = length d
       \<and> rows_of W H d' = (rows_of W H d)
            [nat (randomInt (rnd c) 0 (int H - 1))
               := sort_key pixel_brightness
                    (rows_of W H d ! nat (randomInt (rnd c) 0 (int H - 1)))])"
proof -
  define y where "y = nat (randomInt (rnd c) 0 (int H - 1))"
  have "0 \<le> randomInt (rnd c) 0 (int H - 1) \<and> randomInt (rnd c) 0 (int H - 1) \<le> int H - 1"
    using H by (intro randomInt_proper [OF u]) simp
  then have yi: "randomInt (rnd c) 0 (int H - 1) = int y" and y: "y < H"
    unfolding y_def by (simp, linarith)
  define rs where "rs = 4 * (y * W)"
  have rs: "int y * int W * 4 = int rs" by (simp add: rs_def)
  note rb = row_brightness_pixel [OF len y, folded rs_def]
  note rq = row_quad [OF len y, folded rs_def]
  define sigma where "sigma = sort_key (row_brightness d (int rs)) [0..<W]"
  have ss: "set sigma = {0..<W}" by (simp add: sigma_def)
  define row where "row = map (\<lambda>k. pixel_at d (y * W + k)) sigma"
  have row_sorted: "row = sort_key pixel_brightness (rows_of W H d ! y)"
  proof -
    have "row = sort_key pixel_brightness (map (\<lambda>k. pixel_at d (y * W + k)) [0..<W])"
      unfolding row_def sigma_def
      by (rule sort_key_map_commute) (simp add: rb)
    then show ?thesis using y by (simp add: rows_of_nth)
  qed
  have temp: "map (\<lambda>k. [store (rdi d (int rs + int k * 4)),
                        store (rdi d (int rs + int k * 4 + 1)),
                        store (rdi d (int rs + int k * 4 + 2)),
                        store (rdi d (int rs + int k * 4 + 3))]) sigma = row"
    unfolding row_def by (rule map_cong [OF refl]) (simp add: ss rq)
  have rl: "length row = W" "\<forall>px\<in>set row. length px = 4"
    by (auto simp: row_def sigma_def pixel_at_def)
  have cl: "length (concat row) = 4 * W"
    using concat_quads_length [of row "\<lambda>x. x"] rl by simp
  have fit: "rs + 4 * W \<le> length d" using row_end [OF y, of W] len by (simp add: rs_def)
  have ts: "typed_set d (concat row) (int rs)
      = Inr (take rs d @ concat row @ drop (rs + 4 * W) d)"
    using fit cl by (simp add: typed_set_def)
  let ?d = "take rs d @ concat row @ drop (rs + 4 * W) d"
  have "sort_row rnd W H r (d, c) = Inr (?d, c + 1)"
    unfolding sort_row_def prod.case yi rs Let_def sigma_def [symmetric] temp ts by simp
  moreover have "length ?d = length d" using fit cl by simp
  moreover have "rows_of W H ?d = (rows_of W H d)[y := sort_key pixel_brightness (rows_of W H d ! y)]"
    using replace_row [OF len y rl] row_sorted by (simp add: rs_def)
  ultimately show ?thesis using y unfolding y_def by blast
qed


lemma sort_key_twice: "sort_key f (sort_key f xs) = sort_key f xs"
  by (rule sort_key_id_if_sorted) (rule sorted_sort_key)

lemma spec_pixel_sort_nth:
  "y < length rows \<Longrightarrow>
   spec_pixel_sort ys rows ! y
     = (if y \<in> set ys then sort_key pixel_brightness (rows ! y) else rows ! y)"
proof (induction ys arbitrary: rows)
  case Nil
  then show ?case by (simp add: spec_pixel_sort_def)
next
  case (Cons y0 ys)
  let ?r = "rows[y0 := sort_key pixel_brightness (rows ! y0)]"
  have s: "spec_pixel_sort (y0 # ys) rows = spec_pixel_sort ys ?r"
    by (simp add: spec_pixel_sort_def)
  from Cons.prems have "y < length ?r" by simp
  from Cons.IH [OF this]
  have ih: "spec_pixel_sort ys ?r ! y
      = (if y \<in> set ys then sort_key pixel_brightness (?r ! y) else ?r ! y)" .
  show ?case
  proof (cases "y = y0")
    case True
    with Cons.prems have "?r ! y = sort_key pixel_brightness (rows ! y)" by simp
    with ih True show ?thesis by (simp add: s sort_key_twice)
  next
    case False
    then have "?r ! y = rows ! y" by simp
    with ih False show ?thesis by (simp add: s)
  qed
qed

lemma chosen_rows_Suc:
  "chosen_rows rnd c H (Suc n)
     = nat (randomInt (rnd c) 0 (int H - 1)) # chosen_rows rnd (Suc c) H n"
proof -
  have "[0..<Suc n] = 0 # map Suc [0..<n]"
    by (simp add: upt_conv_Cons map_Suc_upt del: upt_Suc)
  then show ?thesis by (simp add: chosen_rows_def comp_def del: upt_Suc)
qed

lemma chosen_rows_length [simp]: "length (chosen_rows rnd c H n) = n"
  by (simp add: chosen_rows_def)

lemma chosen_rows_bound:
  assumes "\<forall>k. is_draw (rnd k)" "0 < H" "y \<in> set (chosen_rows rnd c H n)"
  shows "y < H"
proof -
  from assms(3) obtain r where y: "y = nat (randomInt (rnd (c + r)) 0 (int H - 1))"
    by (auto simp: chosen_rows_def)
  from assms(1) have "is_draw (rnd (c + r))" ..
  from randomInt_proper [OF this, of 0 "int H - 1"] assms(2) show ?thesis
    unfolding y by (simp add: nat_less_iff)
qed

lemma sort_rows_fold:
  assumes H: "0 < H" and draws: "\<forall>k. is_draw (rnd k)"
  shows "length d = 4 * (W * H) \<Longrightarrow>
    \<exists>d'. efold (sort_row rnd W H) xs (d, c) = Inr (d', c + length xs)
       \<and> length d' = length d
       \<and> rows_of W H d' = spec_pixel_sort (chosen_rows rnd c H (length xs)) (rows_of W H d)"
proof (induction xs arbitrary: d c)
  case Nil
  then show ?case by (simp add: chosen_rows_def spec_pixel_sort_def)
next
  case (Cons x xs)
  from draws have u: "is_draw (rnd c)" ..
  define y where "y = nat (randomInt (rnd c) 0 (int H - 1))"
  from sort_row_step [where rnd = rnd and c = c and r = x, OF Cons.prems u H] obtain d1 where
    s1: "sort_row rnd W H x (d, c) = Inr (d1, c + 1)" and l1: "length d1 = length d"
    and r1: "rows_of W H d1 = (rows_of W H d)[y := sort_key pixel_brightness (rows_of W H d ! y)]"
    unfolding y_def by blast
  from l1 Cons.prems have "length d1 = 4 * (W * H)" by simp
  from Cons.IH [OF this, of "c + 1"] obtain d' where
    e: "efold (sort_row rnd W H) xs (d1, c + 1) = Inr (d', c + 1 + length xs)"
    and l: "length d' = length d1"
    and r: "rows_of W H d' = spec_pixel_sort (chosen_rows rnd (c + 1) H (length xs)) (rows_of W H d1)"
    by blast
  have "efold (sort_row rnd W H) (x # xs) (d, c) = Inr (d', c + length (x # xs))"
    using s1 e by simp
  moreover have "length d' = length d" using l l1 by simp
  moreover have "rows_of W H d'
      = spec_pixel_sort (chosen_rows rnd c H (length (x # xs))) (rows_of W H d)"
    using r r1 by (simp add: chosen_rows_Suc y_def spec_pixel_sort_def)
  ultimately show ?case by blast
qed

lemma rowsToSort_none: "rowsToSort H 0 = 0" "rowsToSort 0 t = 0"
  by (simp_all add: rowsToSort_def fmul_def fdiv_def)

lemma applyPixelSort_rows:
  assumes len: "length d = 4 * (W * H)" and draws: "\<forall>k. is_draw (rnd k)"
  shows "\<exists>d'. applyPixelSort d W H t rnd c = Inr (d', c + nat (rowsToSort H t))
       \<and> length d' = length d
       \<and> rows_of W H d'
           = spec_pixel_sort (chosen_rows rnd c H (nat (rowsToSort H t))) (rows_of W H d)"
proof (cases "t = 0 \<or> H = 0")
  case True
  then have "rowsToSort H t = 0" using rowsToSort_none by auto
  then show ?thesis
    by (simp add: applyPixelSort_def chosen_rows_def spec_pixel_sort_def)
next
  case False
  then have H: "0 < H" and t: "t \<noteq> 0" by simp_all
  from sort_rows_fold [OF H draws len, of "[0..<nat (rowsToSort H t)]" c]
  show ?thesis using t by (simp add: applyPixelSort_def)
qed

lemma applyPixelSort_row:
  assumes len: "length d = 4 * (W * H)" and draws: "\<forall>k. is_draw (rnd k)"
  shows "\<exists>d'. applyPixelSort d W H t rnd c = Inr (d', c + nat (rowsToSort H t))
       \<and> length d' = length d
       \<and> (\<forall>y<H. rows_of W H d' ! y
             = (if y \<in> set (chosen_rows rnd c H (nat (rowsToSort H t)))
                then sort_key pixel_brightness (rows_of W H d ! y)
                else rows_of W H d ! y))"
proof -
  from applyPixelSort_rows [OF assms, of t c] obtain d' where
    a: "applyPixelSort d W H t rnd c = Inr (d', c + nat (rowsToSort H t))"
    and l: "length d' = length d"
    and r: "rows_of W H d'
           = spec_pixel_sort (chosen_rows rnd c H (nat (rowsToSort H t))) (rows_of W H d)"
    by blast
  have "\<forall>y<H. rows_of W H d' ! y
             = (if y \<in> set (chosen_rows rnd c H (nat (rowsToSort H t)))
                then sort_key pixel_brightness (rows_of W H d ! y)
                else rows_of W H d ! y)"
    unfolding r by (simp add: spec_pixel_sort_nth)
  with a l show ?thesis by blast
qed

lemma expo_29: "expo (29 / 100) = - 2"
  by (simp add: expo_def expo_lo.simps)

lemma binary64_29: "binary64 (29 / 100) = 5224175567749775 / 2 ^ 54"
  by (simp add: binary64_def expo_29 round_even_def Let_def power_int_minus)

lemma rowsToSort_29: "rowsToSort 100 29 = 28"
  by (simp add: rowsToSort_def fmul_def fdiv_def binary64_29)
    (simp add: binary64_def expo_def expo_hi.simps round_even_def Let_def power_int_minus)


lemma chosen_rows_none: "chosen_rows rnd c H 0 = []"
  by (simp add: chosen_rows_def)

lemma chosen_rows_in_range:
  assumes "\<forall>k. is_draw (rnd k)"
  shows "\<forall>y\<in>set (chosen_rows rnd c H (nat (rowsToSort H t))). y < H"
proof (cases "H = 0")
  case True
  then show ?thesis by (simp add: rowsToSort_none chosen_rows_none)
next
  case False
  then have "0 < H" by simp
  with assms show ?thesis by (blast intro: chosen_rows_bound)
qed

text \<open>
  Claim C6, as amended. With the draws as explicit inputs and \<open>n\<close> the number
  \<^verbatim>\<open>Math.floor(height * (threshold / 100))\<close> as the code computes it, in
  double-precision arithmetic: the pass makes exactly \<open>n\<close> draws and each selects
  one row, the row \<open>\<lfloor>u * height\<rfloor>\<close> of its draw \<open>u\<close>, which is a row of the
  buffer (rows may repeat); the buffer keeps its length; every selected row is
  rewritten as the stable sort of its pixels by ascending \<open>R + G + B\<close>, and a row
  never selected is unchanged.
\<close>

theorem pixel_sort_rows:
  assumes "length data = 4 * (width * height)" and "\<forall>k. is_draw (rnd k)"
  shows "\<exists>out. applyPixelSort data width height p rnd c
                  = Inr (out, c + nat (rowsToSort height p))
       \<and> length out = length data
       \<and> length (chosen_rows rnd c height (nat (rowsToSort height p)))
           = nat (rowsToSort height p)
       \<and> (\<forall>y\<in>set (chosen_rows rnd c height (nat (rowsToSort height p))). y < height)
       \<and> (\<forall>y<height. rows_of width height out ! y
             = (if y \<in> set (chosen_rows rnd c height (nat (rowsToSort height p)))
                then sort_key pixel_brightness (rows_of width height data ! y)
                else rows_of width height data ! y))"
  using applyPixelSort_row [OF assms, of p c] chosen_rows_in_range [OF assms(2), of c height p]
  by (simp del: set_upt)

theorem pixel_sort_rows_witness:
  "\<exists>out. applyPixelSort [3, 0, 0, 7, 1, 1, 1, 8, 0, 0, 2, 9] 3 1 100 (\<lambda>k. 0) 0 = Inr (out, 1)
     \<and> length out = 12
     \<and> chosen_rows (\<lambda>k. 0) 0 1 1 = [0]
     \<and> rows_of 3 1 out ! 0 = [[0, 0, 2, 9], [3, 0, 0, 7], [1, 1, 1, 8]]"
proof -
  let ?d = "[3, 0, 0, 7, 1, 1, 1, 8, 0, 0, 2, 9] :: byte list"
  have h1: "length ?d = 4 * (3 * 1)" by simp
  have h2: "\<forall>k::nat. is_draw ((\<lambda>k. 0) k)" by (simp add: is_draw_def)
  have n: "nat (rowsToSort 1 100) = 1" by (simp add: rowsToSort_def fmul_def fdiv_def)
  have ys: "chosen_rows (\<lambda>k. 0) 0 1 1 = [0]"
    by (simp add: chosen_rows_def randomInt_def fmul_def)
  have u3: "[0..<3] = [0, 1, 2]" by (simp add: upt_rec)
  have row: "rows_of 3 1 ?d ! 0 = [[3, 0, 0, 7], [1, 1, 1, 8], [0, 0, 2, 9]]"
    by (simp add: rows_of_def pixel_at_def u3)
  have srt: "sort_key pixel_brightness [[3, 0, 0, 7], [1, 1, 1, 8], [0, 0, 2, 9 :: byte]]
      = [[0, 0, 2, 9], [3, 0, 0, 7], [1, 1, 1, 8]]"
    by (simp add: pixel_brightness_def num_def)
  from pixel_sort_rows [OF h1 h2, of 100 0] obtain out where
    a: "applyPixelSort ?d 3 1 100 (\<lambda>k. 0) 0 = Inr (out, 0 + nat (rowsToSort 1 100))"
    and l: "length out = length ?d"
    and r: "\<forall>y<1. rows_of 3 1 out ! y
             = (if y \<in> set (chosen_rows (\<lambda>k. 0) 0 1 (nat (rowsToSort 1 100)))
                then sort_key pixel_brightness (rows_of 3 1 ?d ! y)
                else rows_of 3 1 ?d ! y)"
    by blast
  from r have "rows_of 3 1 out ! 0
      = (if 0 \<in> set (chosen_rows (\<lambda>k. 0) 0 1 (nat (rowsToSort 1 100)))
         then sort_key pixel_brightness (rows_of 3 1 ?d ! 0)
         else rows_of 3 1 ?d ! 0)"
    by blast
  then have r0: "rows_of 3 1 out ! 0 = [[0, 0, 2, 9], [3, 0, 0, 7], [1, 1, 1, 8]]"
    unfolding n ys row srt by simp
  from a have "applyPixelSort ?d 3 1 100 (\<lambda>k. 0) 0 = Inr (out, 1)"
    unfolding n by simp
  with l r0 ys show ?thesis by simp
qed

text \<open>
  Claim C6 as stated fails on the number of rows: for \<open>height = 100\<close> and
  \<open>pixelSort = 29\<close> the quotient \<open>29 / 100\<close> rounds below \<open>0.29\<close>, the product
  rounds below 29, and the pass sorts 28 rows where \<open>\<lfloor>100 * 29 / 100\<rfloor> = 29\<close>.
\<close>

theorem pixel_sort_rows_counterexample:
  "rowsToSort 100 29 = 28 \<and> \<lfloor>(100 :: real) * 29 / 100\<rfloor> = (29 :: int)
   \<and> (\<exists>out. applyPixelSort (replicate 400 0) 1 100 29 (\<lambda>k. 0) 0 = Inr (out, 28))"
proof -
  have h1: "length (replicate 400 (0 :: byte)) = 4 * (1 * 100)" by simp
  have h2: "\<forall>k::nat. is_draw ((\<lambda>k. 0) k)" by (simp add: is_draw_def)
  from applyPixelSort_rows [OF h1 h2, of 29 0]
  have "\<exists>out. applyPixelSort (replicate 400 0) 1 100 29 (\<lambda>k. 0) 0 = Inr (out, 28)"
    unfolding rowsToSort_29 by auto
  then show ?thesis by (simp add: rowsToSort_29)
qed

text \<open>
  Claim C10. For every \<open>pixelSort\<close> value and every sequence of draws, the pass
  returns a buffer of the same length in which every row holds the pixels that
  the row held before, as 4-byte units and with their multiplicities: no pixel
  leaves its row, and so the multiset of the pixels of the whole buffer is
  preserved.
\<close>

theorem pixel_sort_permutes_rows:
  assumes "length data = 4 * (width * height)" and "\<forall>k. is_draw (rnd k)"
  shows "\<exists>out c'. applyPixelSort data width height p rnd c = Inr (out, c')
       \<and> length out = length data
       \<and> (\<forall>y<height. mset (rows_of width height out ! y)
                        = mset (rows_of width height data ! y))
       \<and> mset (concat (rows_of width height out)) = mset (concat (rows_of width height data))"
proof -
  let ?ys = "chosen_rows rnd c height (nat (rowsToSort height p))"
  from applyPixelSort_rows [OF assms, of p c] obtain out where
    a: "applyPixelSort data width height p rnd c = Inr (out, c + nat (rowsToSort height p))"
    and l: "length out = length data"
    and r: "rows_of width height out = spec_pixel_sort ?ys (rows_of width height data)"
    by blast
  from spec_pixel_sort_rows [of ?ys "rows_of width height data"]
  have m: "\<forall>y<height. mset (rows_of width height out ! y)
                        = mset (rows_of width height data ! y)"
    unfolding r by simp
  have "mset (concat (rows_of width height out)) = mset (concat (rows_of width height data))"
    by (rule mset_concat_pointwise) (simp_all add: m)
  with a l m show ?thesis by blast
qed

theorem pixel_sort_permutes_rows_witness:
  "\<exists>out c'. applyPixelSort [5, 5, 5, 255, 1, 1, 1, 255, 7, 7, 7, 255, 2, 2, 2, 255] 2 2 50
                (\<lambda>k. 1 / 2) 0 = Inr (out, c')
     \<and> length out = 16
     \<and> mset (rows_of 2 2 out ! 0) = {#[5, 5, 5, 255], [1, 1, 1, 255]#}
     \<and> mset (rows_of 2 2 out ! 1) = {#[7, 7, 7, 255], [2, 2, 2, 255]#}
     \<and> mset (concat (rows_of 2 2 out))
         = {#[5, 5, 5, 255], [1, 1, 1, 255], [7, 7, 7, 255], [2, 2, 2, 255]#}"
proof -
  let ?d = "[5, 5, 5, 255, 1, 1, 1, 255, 7, 7, 7, 255, 2, 2, 2, 255] :: byte list"
  have h1: "length ?d = 4 * (2 * 2)" by simp
  have h2: "\<forall>k::nat. is_draw ((\<lambda>k. 1 / 2) k)" by (simp add: is_draw_def)
  have u2: "[0..<2] = [0, 1]" by (simp add: upt_rec)
  have rows: "rows_of 2 2 ?d
      = [[[5, 5, 5, 255], [1, 1, 1, 255]], [[7, 7, 7, 255], [2, 2, 2, 255]]]"
    by (simp add: rows_of_def pixel_at_def u2)
  from pixel_sort_permutes_rows [OF h1 h2, of 50 0] show ?thesis
    unfolding rows by (auto simp: numeral_2_eq_2)
qed

section \<open>processImage\<close>

text \<open>
  Claim C8. The output of the glitch pipeline does not depend on the seed: two
  parameter records that differ only in \<open>seed\<close> give, on the same buffer and the
  same draws, the same result; the block-shift pass receives the seed and never
  reads it.
\<close>

theorem processImage_seed_independent:
  "processImage data width height (params\<lparr>seed := s1\<rparr>) rnd c
     = processImage data width height (params\<lparr>seed := s2\<rparr>) rnd c
   \<and> applyBlockShift data width height intensity s1 rnd c
     = applyBlockShift data width height intensity s2 rnd c"
  by (auto simp: processImage_def applyBlockShift_def split: sum.splits prod.splits)


end
